theory Spec2Isabelle
  imports Complex_Main "HOL-Library.AList" "HOL-Library.List_Lexorder"
begin

section \<open>Values, exceptions and the environment\<close>

text \<open>
  The client of \<^verbatim>\<open>spalloc/protocol_client.py\<close> and the job object of
  \<^verbatim>\<open>spalloc/job.py\<close> are embedded as state-passing functions. A Python exception is
  the left injection of the result, a Python value the right one.
\<close>

type_synonym thread = nat
type_synonym sock = nat
type_synonym bytes = string

text \<open>Decoded JSON values; \<open>JNull\<close> is Python's \<^verbatim>\<open>None\<close>.\<close>

datatype json =
    JNull
  | JBool bool
  | JInt int
  | JFloat real
  | JStr string
  | JList "json list"
  | JObj "(string \<times> json) list"

text \<open>
  The exception classes that occur. \<^verbatim>\<open>IOError\<close> is \<^verbatim>\<open>OSError\<close>, and
  \<^verbatim>\<open>socket.timeout\<close> is a subclass of it; the JSON and Unicode decoding errors are
  subclasses of \<^verbatim>\<open>ValueError\<close>.
\<close>

datatype error =
    ProtocolTimeoutError
  | OSError
  | ValueError
  | TypeError
  | KeyError
  | AttributeError
  | RuntimeError
  | JobDestroyedError json
  | StateChangeTimeoutError

datatype recv_outcome = RecvData bytes | RecvTimeout | RecvError
datatype send_outcome = SendAll | SendPart nat | SendTimeout | SendError

text \<open>Modelled from the spec: the enumeration \<^verbatim>\<open>JobState\<close> of \<^verbatim>\<open>spalloc/states.py\<close>,
  which is not among the sources; the spec lists the server states
  queued, power, ready, destroyed and unknown.\<close>

datatype job_state = Queued | Power | Ready | Destroyed | Unknown

text \<open>\<^verbatim>\<open>JobStateTuple\<close>, the result of \<^verbatim>\<open>Job.get_state\<close>.\<close>

record job_state_tuple =
  st_state :: job_state
  st_power :: json
  st_keepalive :: json
  st_reason :: json

text \<open>
  The fields of \<^verbatim>\<open>ProtocolClient\<close>, followed by the environment the client runs
  against. The thread-local object \<^verbatim>\<open>_local\<close> has the attributes \<^verbatim>\<open>sock\<close> and
  \<^verbatim>\<open>buffer\<close>, each unset (\<open>None\<close> in the map) until a thread assigns it; reading an
  unset attribute raises \<^verbatim>\<open>AttributeError\<close>.

  The environment is a script: \<open>ticks\<close> are the amounts by which the clock advances at
  the successive readings of \<^verbatim>\<open>time.time()\<close>, and \<open>connects\<close>, \<open>sends\<close> and
  \<open>recvs\<close> are the outcomes of the successive socket operations. When a script is
  used up the clock stands still, connecting and sending succeed, and the peer has
  closed the stream. \<open>json_loads\<close>, \<open>json_dumps\<close> and \<open>JobState\<close> stand for the
  library's JSON codec and the enumeration's constructor. \<open>sent\<close> and \<open>warnings\<close> record
  what was written to the sockets and to the log. \<open>polled\<close> is a history variable: the
  tuples \<^verbatim>\<open>Job.get_state\<close> has returned, which no function reads.
\<close>

record pc =
  socks :: "(thread \<times> sock) list"
  local_sock :: "thread \<rightharpoonup> sock option"
  local_buffer :: "thread \<rightharpoonup> bytes"
  notifications :: "json list"
  dead :: bool
  json_loads :: "bytes \<Rightarrow> json option"
  json_dumps :: "json \<Rightarrow> bytes"
  JobState :: "json \<Rightarrow> job_state option"
  now :: real
  ticks :: "real list"
  connects :: "bool list"
  sends :: "send_outcome list"
  recvs :: "recv_outcome list"
  next_sock :: sock
  closed_socks :: "sock list"
  sent :: "(sock \<times> bytes) list"
  warnings :: "string list"
  polled :: "job_state_tuple list"

subsection \<open>Python operators on decoded values\<close>

fun py_startswith :: "string \<Rightarrow> string \<Rightarrow> bool" where
  "py_startswith s [] = True"
| "py_startswith [] (p # ps) = False"
| "py_startswith (c # cs) (p # ps) = (c = p \<and> py_startswith cs ps)"

fun py_substring :: "string \<Rightarrow> string \<Rightarrow> bool" where
  "py_substring p [] = (p = [])"
| "py_substring p (c # cs) = (py_startswith (c # cs) p \<or> py_substring p cs)"

text \<open>\<^verbatim>\<open>k in obj\<close>: key membership for a dict, substring for a string, element for a list,
  \<^verbatim>\<open>TypeError\<close> for the values that are not containers.\<close>

fun py_in :: "string \<Rightarrow> json \<Rightarrow> error + bool" where
  "py_in k (JObj kvs) = Inr (k \<in> set (map fst kvs))"
| "py_in k (JStr s) = Inr (py_substring k s)"
| "py_in k (JList xs) = Inr (JStr k \<in> set xs)"
| "py_in k JNull = Inl TypeError"
| "py_in k (JBool b) = Inl TypeError"
| "py_in k (JInt i) = Inl TypeError"
| "py_in k (JFloat r) = Inl TypeError"

text \<open>\<^verbatim>\<open>obj[k]\<close> with a string key.\<close>

fun py_getitem :: "json \<Rightarrow> string \<Rightarrow> error + json" where
  "py_getitem (JObj kvs) k = (case map_of kvs k of None \<Rightarrow> Inl KeyError | Some v \<Rightarrow> Inr v)"
| "py_getitem (JStr s) k = Inl TypeError"
| "py_getitem (JList xs) k = Inl TypeError"
| "py_getitem JNull k = Inl TypeError"
| "py_getitem (JBool b) k = Inl TypeError"
| "py_getitem (JInt i) k = Inl TypeError"
| "py_getitem (JFloat r) k = Inl TypeError"

subsection \<open>The clock and the socket layer\<close>

definition time_time :: "pc \<Rightarrow> real \<times> pc" where
  "time_time s =
     (case ticks s of
        [] \<Rightarrow> (now s, s)
      | d # ds \<Rightarrow> (now s + d, s\<lparr>now := now s + d, ticks := ds\<rparr>))"

definition time_sleep :: "real \<Rightarrow> pc \<Rightarrow> pc" where
  "time_sleep d s = s\<lparr>now := now s + d\<rparr>"

definition socket_new :: "pc \<Rightarrow> sock \<times> pc" where
  "socket_new s = (next_sock s, s\<lparr>next_sock := Suc (next_sock s)\<rparr>)"

text \<open>\<^verbatim>\<open>sock.settimeout\<close> refuses a negative timeout and a closed socket.\<close>

definition sock_settimeout :: "sock \<Rightarrow> real option \<Rightarrow> pc \<Rightarrow> error + unit" where
  "sock_settimeout k timeout s =
     (if (case timeout of None \<Rightarrow> False | Some x \<Rightarrow> x < 0) then Inl ValueError
      else if k \<in> set (closed_socks s) then Inl OSError
      else Inr ())"

definition sock_connect :: "sock \<Rightarrow> pc \<Rightarrow> (error + unit) \<times> pc" where
  "sock_connect k s =
     (if k \<in> set (closed_socks s) then (Inl OSError, s)
      else case connects s of
        [] \<Rightarrow> (Inr (), s)
      | ok # cs \<Rightarrow> (if ok then Inr () else Inl OSError, s\<lparr>connects := cs\<rparr>))"

text \<open>\<^verbatim>\<open>sock.send(data)\<close> returns the number of bytes it took.\<close>

definition sock_send :: "sock \<Rightarrow> bytes \<Rightarrow> pc \<Rightarrow> (error + nat) \<times> pc" where
  "sock_send k data s =
     (if k \<in> set (closed_socks s) then (Inl OSError, s)
      else case sends s of
        [] \<Rightarrow> (Inr (length data), s\<lparr>sent := sent s @ [(k, data)]\<rparr>)
      | SendAll # os \<Rightarrow> (Inr (length data), s\<lparr>sends := os, sent := sent s @ [(k, data)]\<rparr>)
      | SendPart n # os \<Rightarrow>
          (Inr (min n (length data)), s\<lparr>sends := os, sent := sent s @ [(k, take n data)]\<rparr>)
      | SendTimeout # os \<Rightarrow> (Inl ProtocolTimeoutError, s\<lparr>sends := os\<rparr>)
      | SendError # os \<Rightarrow> (Inl OSError, s\<lparr>sends := os\<rparr>))"

text \<open>\<^verbatim>\<open>sock.recv(1024)\<close>: the next chunk of the stream, the empty chunk when the peer
  has closed it. The \<^verbatim>\<open>socket.timeout\<close> is already turned into the
  \<^verbatim>\<open>ProtocolTimeoutError\<close> of the only handler around \<^verbatim>\<open>recv\<close>.\<close>

definition sock_recv :: "sock \<Rightarrow> pc \<Rightarrow> (error + bytes) \<times> pc" where
  "sock_recv k s =
     (if k \<in> set (closed_socks s) then (Inl OSError, s)
      else case recvs s of
        [] \<Rightarrow> (Inr [], s)
      | RecvData d # es \<Rightarrow> (Inr d, s\<lparr>recvs := es\<rparr>)
      | RecvTimeout # es \<Rightarrow> (Inl ProtocolTimeoutError, s\<lparr>recvs := es\<rparr>)
      | RecvError # es \<Rightarrow> (Inl OSError, s\<lparr>recvs := es\<rparr>))"

definition sock_close :: "sock \<Rightarrow> pc \<Rightarrow> pc" where
  "sock_close k s = s\<lparr>closed_socks := k # closed_socks s\<rparr>"

section \<open>The connection manager\<close>

text \<open>\<^verbatim>\<open>_close(key)\<close>, run by thread \<open>t\<close>; \<open>key\<close> defaults to the running thread.\<close>

definition close_one :: "thread \<Rightarrow> thread \<Rightarrow> pc \<Rightarrow> pc" where
  "close_one t key s =
     (case map_of (socks s) key of
        None \<Rightarrow> s
      | Some k \<Rightarrow>
          let s1 = s\<lparr>socks := AList.delete key (socks s)\<rparr>;
              s2 = (if key = t
                    then s1\<lparr>local_sock := (local_sock s1)(t \<mapsto> None),
                            local_buffer := (local_buffer s1)(t \<mapsto> [])\<rparr>
                    else s1)
          in sock_close k s2)"

text \<open>\<^verbatim>\<open>close()\<close>: the dead flag, then every key of the table, then a fresh
  thread-local object.\<close>

definition close :: "thread \<Rightarrow> pc \<Rightarrow> pc" where
  "close t s =
     (let s1 = s\<lparr>dead := True\<rparr>;
          keys = map fst (socks s1);
          s2 = fold (close_one t) keys s1
      in s2\<lparr>local_sock := Map.empty, local_buffer := Map.empty\<rparr>)"

text \<open>
  \<^verbatim>\<open>_get_connection\<close> and \<^verbatim>\<open>_connect\<close> call each other: a thread without a socket
  gets one, and \<^verbatim>\<open>_connect\<close> then finds it through \<^verbatim>\<open>_get_connection\<close>. The handler of
  \<^verbatim>\<open>_connect\<close> catches \<^verbatim>\<open>OSError\<close> only. A dead client hands out \<^verbatim>\<open>None\<close>, on
  which \<^verbatim>\<open>.connect\<close> is an \<^verbatim>\<open>AttributeError\<close>.
\<close>

function get_connection :: "thread \<Rightarrow> real option \<Rightarrow> pc \<Rightarrow> (error + sock option) \<times> pc"
  and connect_sock :: "thread \<Rightarrow> real option \<Rightarrow> pc \<Rightarrow> (error + unit) \<times> pc"
where
  "get_connection t timeout s =
     (if dead s then (Inr None, s)
      else case map_of (socks s) t of
        Some k \<Rightarrow>
          (case sock_settimeout k timeout s of
             Inl e \<Rightarrow> (Inl e, s)
           | Inr u \<Rightarrow> (Inr (Some k), s))
      | None \<Rightarrow>
          (case socket_new s of (k, s0) \<Rightarrow>
             let s1 = s0\<lparr>socks := socks s0 @ [(t, k)]\<rparr>;
                 s2 = s1\<lparr>local_buffer := (local_buffer s1)(t \<mapsto> []),
                         local_sock := (local_sock s1)(t \<mapsto> Some k)\<rparr>
             in case connect_sock t timeout s2 of
                  (Inl e, s3) \<Rightarrow> (Inl e, s3)
                | (Inr u, s3) \<Rightarrow>
                    (case sock_settimeout k timeout s3 of
                       Inl e \<Rightarrow> (Inl e, s3)
                     | Inr u \<Rightarrow> (Inr (Some k), s3))))"
| "connect_sock t timeout s =
     (case get_connection t timeout s of
        (Inl e, s1) \<Rightarrow> (Inl e, if e = OSError then close_one t t s1 else s1)
      | (Inr None, s1) \<Rightarrow> (Inl AttributeError, s1)
      | (Inr (Some k), s1) \<Rightarrow>
          (case sock_connect k s1 of
             (Inl e, s2) \<Rightarrow> (Inl e, if e = OSError then close_one t t s2 else s2)
           | (Inr u, s2) \<Rightarrow> (Inr (), s2)))"
  by pat_completeness auto
termination
  by (relation "measure (\<lambda>x. case x of
          Inl (t, timeout, s) \<Rightarrow> (if map_of (socks s) t = None then 3 else 1)
        | Inr (t, timeout, s) \<Rightarrow> (if map_of (socks s) t = None then 4 else 2))")
     (auto simp: socket_new_def)

text \<open>\<^verbatim>\<open>connect(timeout)\<close>: reads \<^verbatim>\<open>self._local.sock\<close> first.\<close>

definition connect :: "thread \<Rightarrow> real option \<Rightarrow> pc \<Rightarrow> (error + unit) \<times> pc" where
  "connect t timeout s =
     (case local_sock s t of
        None \<Rightarrow> (Inl AttributeError, s)
      | Some so \<Rightarrow>
          let s1 = (if so \<noteq> None then close_one t t s else s);
              s2 = s1\<lparr>dead := False\<rparr>
          in connect_sock t timeout s2)"

section \<open>Receiving and sending lines\<close>

definition newline :: char where
  "newline = CHR 0x0A"

text \<open>\<^verbatim>\<open>buffer.partition(b"\n")\<close>: the part before the first newline and the part after
  it.\<close>

definition partition_newline :: "bytes \<Rightarrow> bytes \<times> bytes" where
  "partition_newline buf =
     (takeWhile (\<lambda>c. c \<noteq> newline) buf, drop 1 (dropWhile (\<lambda>c. c \<noteq> newline) buf))"

text \<open>
  The body of \<^verbatim>\<open>_recv_json\<close> after the connection is fetched: read until the buffer
  holds a newline, then split the first line off and decode it. The buffer is assigned
  before \<^verbatim>\<open>json.loads\<close> runs, so a line that does not decode is consumed all the same.
\<close>

function recv_line :: "thread \<Rightarrow> sock option \<Rightarrow> pc \<Rightarrow> (error + json) \<times> pc" where
  "recv_line t so s =
     (case local_buffer s t of
        None \<Rightarrow> (Inl AttributeError, s)
      | Some buf \<Rightarrow>
          if newline \<in> set buf then
            (case partition_newline buf of (line, rest) \<Rightarrow>
               let s1 = s\<lparr>local_buffer := (local_buffer s)(t \<mapsto> rest)\<rparr>
               in case json_loads s1 line of
                    None \<Rightarrow> (Inl ValueError, s1)
                  | Some obj \<Rightarrow> (Inr obj, s1))
          else
            (case so of
               None \<Rightarrow> (Inl AttributeError, s)
             | Some k \<Rightarrow>
                 (case sock_recv k s of
                    (Inl e, s1) \<Rightarrow> (Inl e, s1)
                  | (Inr data, s1) \<Rightarrow>
                      if length data = 0 then (Inl OSError, s1)
                      else recv_line t so
                             (s1\<lparr>local_buffer := (local_buffer s1)(t \<mapsto> buf @ data)\<rparr>))))"
  by pat_completeness auto
termination
  by (relation "measure (\<lambda>(t, so, s). length (recvs s))")
     (auto simp: sock_recv_def split: if_splits list.splits recv_outcome.splits)

definition recv_json :: "thread \<Rightarrow> real option \<Rightarrow> pc \<Rightarrow> (error + json) \<times> pc" where
  "recv_json t timeout s =
     (case get_connection t timeout s of
        (Inl e, s1) \<Rightarrow> (Inl e, s1)
      | (Inr so, s1) \<Rightarrow> recv_line t so s1)"

text \<open>\<^verbatim>\<open>_send_json\<close>: a send that does not take the whole line is an \<^verbatim>\<open>OSError\<close>.\<close>

definition send_json :: "thread \<Rightarrow> json \<Rightarrow> real option \<Rightarrow> pc \<Rightarrow> (error + unit) \<times> pc" where
  "send_json t obj timeout s =
     (case get_connection t timeout s of
        (Inl e, s1) \<Rightarrow> (Inl e, s1)
      | (Inr so, s1) \<Rightarrow>
          let data = json_dumps s1 obj @ [newline]
          in case so of
               None \<Rightarrow> (Inl AttributeError, s1)
             | Some k \<Rightarrow>
                 (case sock_send k data s1 of
                    (Inl e, s2) \<Rightarrow> (Inl e, s2)
                  | (Inr n, s2) \<Rightarrow>
                      if n \<noteq> length data then (Inl OSError, s2) else (Inr (), s2)))"

section \<open>Calls and notifications\<close>

text \<open>The number of bytes and socket events a thread has not consumed yet: what the
  receive loop of \<^verbatim>\<open>call\<close> uses up.\<close>

definition unread :: "thread \<Rightarrow> pc \<Rightarrow> nat" where
  "unread t s =
     (case local_buffer s t of None \<Rightarrow> 0 | Some b \<Rightarrow> length b) +
     sum_list (map (\<lambda>r. case r of RecvData d \<Rightarrow> Suc (length d) | _ \<Rightarrow> 1) (recvs s))"

text \<open>The head of the receive loop of \<^verbatim>\<open>call\<close>: the loop test and the time left for
  the next receive; \<open>None\<close> when the loop is left.\<close>

definition call_time_left :: "real option \<Rightarrow> pc \<Rightarrow> real option option \<times> pc" where
  "call_time_left finish_time s =
     (case finish_time of
        None \<Rightarrow> (Some None, s)
      | Some ft \<Rightarrow>
          (case time_time s of (n1, s1) \<Rightarrow>
             if ft > n1
             then (case time_time s1 of (n2, s2) \<Rightarrow> (Some (Some (max (ft - n2) 0)), s2))
             else (None, s1)))"

declare get_connection.simps [simp del] connect_sock.simps [simp del] recv_line.simps [simp del]

lemma get_connection_present:
  "\<not> dead s \<Longrightarrow> map_of (socks s) t = Some k \<Longrightarrow>
   get_connection t timeout s =
     (case sock_settimeout k timeout s of Inl e \<Rightarrow> (Inl e, s) | Inr u \<Rightarrow> (Inr (Some k), s))"
  by (subst get_connection.simps) simp

lemma get_connection_dead: "dead s \<Longrightarrow> get_connection t timeout s = (Inr None, s)"
  by (subst get_connection.simps) simp

lemma connect_sock_present:
  "\<not> dead s \<Longrightarrow> map_of (socks s) t = Some k \<Longrightarrow>
   connect_sock t timeout s =
     (case sock_settimeout k timeout s of
        Inl e \<Rightarrow> (Inl e, if e = OSError then close_one t t s else s)
      | Inr u \<Rightarrow>
          (case sock_connect k s of
             (Inl e, s2) \<Rightarrow> (Inl e, if e = OSError then close_one t t s2 else s2)
           | (Inr u, s2) \<Rightarrow> (Inr (), s2)))"
  by (subst connect_sock.simps) (simp add: get_connection_present split: sum.splits)

lemma get_connection_absent:
  "\<not> dead s \<Longrightarrow> map_of (socks s) t = None \<Longrightarrow>
   get_connection t timeout s =
          (let k = next_sock s;
               s2 = s\<lparr>next_sock := Suc k, socks := socks s @ [(t, k)],
                      local_buffer := (local_buffer s)(t \<mapsto> []),
                      local_sock := (local_sock s)(t \<mapsto> Some k)\<rparr>
           in case connect_sock t timeout s2 of
                  (Inl e, s3) \<Rightarrow> (Inl e, s3)
                | (Inr u, s3) \<Rightarrow>
                    (case sock_settimeout k timeout s3 of
                       Inl e \<Rightarrow> (Inl e, s3)
                     | Inr u \<Rightarrow> (Inr (Some k), s3)))"
  by (subst get_connection.simps) (simp add: socket_new_def Let_def)


lemma close_one_frame:
  "recvs (close_one t key s) = recvs s"
  "notifications (close_one t key s) = notifications s"
  "json_loads (close_one t key s) = json_loads s"
  "dead (close_one t key s) = dead s"
  "ticks (close_one t key s) = ticks s"
  "now (close_one t key s) = now s"
  "polled (close_one t key s) = polled s"
  by (simp_all add: close_one_def sock_close_def Let_def split: option.splits)

lemma close_one_unread: "unread t (close_one t' key s) \<le> unread t s"
  by (simp add: close_one_def sock_close_def Let_def unread_def split: option.splits)

lemma sock_connect_frame:
  "sock_connect k s = (r, s') \<Longrightarrow>
   recvs s' = recvs s \<and> notifications s' = notifications s \<and> json_loads s' = json_loads s \<and>
   dead s' = dead s \<and> local_buffer s' = local_buffer s \<and> socks s' = socks s \<and>
   ticks s' = ticks s \<and> now s' = now s \<and> polled s' = polled s"
  by (auto simp: sock_connect_def split: if_splits list.splits)

lemma connect_sock_present_frame:
  assumes "\<not> dead s" "map_of (socks s) t = Some k" "connect_sock t timeout s = (r, s')"
  shows "recvs s' = recvs s \<and> notifications s' = notifications s \<and>
         json_loads s' = json_loads s \<and> dead s' = dead s \<and> ticks s' = ticks s \<and>
         now s' = now s \<and> polled s' = polled s \<and> unread t s' \<le> unread t s"
proof -
  obtain r2 s2 where sc: "sock_connect k s = (r2, s2)" by (cases "sock_connect k s")
  from sock_connect_frame [OF sc] have u: "unread t s2 = unread t s"
    by (simp add: unread_def)
  from assms sc sock_connect_frame [OF sc] u close_one_unread [of t t t s] close_one_unread [of t t t s2]
  show ?thesis
    by (auto simp: connect_sock_present close_one_frame split: sum.splits if_splits)
qed

lemma get_connection_frame:
  assumes "get_connection t timeout s = (r, s')"
  shows "recvs s' = recvs s \<and> notifications s' = notifications s \<and>
         json_loads s' = json_loads s \<and> dead s' = dead s \<and> ticks s' = ticks s \<and>
         now s' = now s \<and> polled s' = polled s \<and> unread t s' \<le> unread t s"
proof (cases "dead s")
  case True
  with assms show ?thesis by (simp add: get_connection_dead)
next
  case nd: False
  show ?thesis
  proof (cases "map_of (socks s) t")
    case (Some k)
    with nd assms show ?thesis
      by (auto simp: get_connection_present split: sum.splits)
  next
    case None
    define k where "k = next_sock s"
    define s2 where "s2 = s\<lparr>next_sock := Suc k, socks := socks s @ [(t, k)],
                      local_buffer := (local_buffer s)(t \<mapsto> []),
                      local_sock := (local_sock s)(t \<mapsto> Some k)\<rparr>"
    obtain r3 s3 where cs: "connect_sock t timeout s2 = (r3, s3)"
      by (cases "connect_sock t timeout s2")
    have p: "\<not> dead s2" "map_of (socks s2) t = Some k"
      using nd None by (simp_all add: s2_def map_add_Some_iff)
    have u2: "unread t s2 \<le> unread t s"
      by (simp add: unread_def s2_def split: option.splits)
    from connect_sock_present_frame [OF p cs] u2
    have f: "recvs s3 = recvs s \<and> notifications s3 = notifications s \<and>
         json_loads s3 = json_loads s \<and> dead s3 = dead s \<and> ticks s3 = ticks s \<and>
         now s3 = now s \<and> polled s3 = polled s \<and> unread t s3 \<le> unread t s"
      by (simp add: s2_def)
    from assms nd None cs have "s' = s3"
      by (auto simp: get_connection_absent Let_def k_def [symmetric] s2_def [symmetric]
               split: sum.splits)
    with f show ?thesis by simp
  qed
qed

lemma recv_line_unread:
  "recv_line t so s = (Inr obj, s') \<Longrightarrow> unread t s' < unread t s"
proof (induction t so s rule: recv_line.induct)
  case (1 t so s)
  show ?case
  proof (cases "local_buffer s t")
    case None
    with "1.prems" show ?thesis by (subst (asm) recv_line.simps) simp
  next
    case (Some buf)
    show ?thesis
    proof (cases "newline \<in> set buf")
      case True
      then have "length (drop 1 (dropWhile (\<lambda>c. c \<noteq> newline) buf)) < length buf"
        by (induction buf) (auto split: if_splits)
      with "1.prems" Some True show ?thesis
        by (subst (asm) recv_line.simps)
           (auto simp: partition_newline_def unread_def Let_def split: option.splits)
    next
      case False
      with "1.prems" Some obtain k where so: "so = Some k"
        by (subst (asm) recv_line.simps) (auto split: option.splits)
      obtain r1 s1 where sr: "sock_recv k s = (r1, s1)" by (cases "sock_recv k s")
      with "1.prems" Some False so obtain data where
        d: "r1 = Inr data" "length data \<noteq> 0"
        and rec: "recv_line t so (s1\<lparr>local_buffer := (local_buffer s1)(t \<mapsto> buf @ data)\<rparr>) = (Inr obj, s')"
        by (subst (asm) recv_line.simps) (auto split: sum.splits if_splits)
      from "1.IH" [OF Some False so sr [symmetric] d(1) d(2) rec]
      have "unread t s' < unread t (s1\<lparr>local_buffer := (local_buffer s1)(t \<mapsto> buf @ data)\<rparr>)"
        by simp
      moreover from sr d have "recvs s = RecvData data # recvs s1" "local_buffer s1 = local_buffer s"
        by (auto simp: sock_recv_def split: if_splits list.splits recv_outcome.splits)
      ultimately show ?thesis using Some by (simp add: unread_def)
    qed
  qed
qed

lemma recv_json_unread:
  "recv_json t timeout s = (Inr obj, s') \<Longrightarrow> unread t s' < unread t s"
  using get_connection_frame recv_line_unread
  by (fastforce simp: recv_json_def split: prod.splits sum.splits)

lemma time_time_frame:
  "time_time s = (n, s') \<Longrightarrow>
   recvs s' = recvs s \<and> notifications s' = notifications s \<and> json_loads s' = json_loads s \<and>
   dead s' = dead s \<and> local_buffer s' = local_buffer s \<and> socks s' = socks s \<and>
   polled s' = polled s"
  by (auto simp: time_time_def split: list.splits)

lemma call_time_left_frame:
  "call_time_left finish_time s = (r, s') \<Longrightarrow>
   recvs s' = recvs s \<and> notifications s' = notifications s \<and> json_loads s' = json_loads s \<and>
   dead s' = dead s \<and> local_buffer s' = local_buffer s \<and> socks s' = socks s \<and>
   polled s' = polled s"
  by (auto simp: call_time_left_def split: option.splits prod.splits if_splits
           dest!: time_time_frame)

text \<open>
  The receive loop of \<^verbatim>\<open>call\<close>. A line with \<^verbatim>\<open>"return"\<close> ends it with that value,
  any other line is appended to the notifications. When the loop test fails the
  function body ends, and Python returns \<^verbatim>\<open>None\<close>.
\<close>

function call_loop :: "thread \<Rightarrow> real option \<Rightarrow> pc \<Rightarrow> (error + json) \<times> pc" where
  "call_loop t finish_time s =
     (case call_time_left finish_time s of
        (None, s1) \<Rightarrow> (Inr JNull, s1)
      | (Some time_left, s1) \<Rightarrow>
          (case recv_json t time_left s1 of
             (Inl e, s2) \<Rightarrow> (Inl e, s2)
           | (Inr obj, s2) \<Rightarrow>
               (case py_in ''return'' obj of
                  Inl e \<Rightarrow> (Inl e, s2)
                | Inr True \<Rightarrow>
                    (case py_getitem obj ''return'' of
                       Inl e \<Rightarrow> (Inl e, s2)
                     | Inr v \<Rightarrow> (Inr v, s2))
                | Inr False \<Rightarrow>
                    call_loop t finish_time
                      (s2\<lparr>notifications := notifications s2 @ [obj]\<rparr>))))"
  by pat_completeness auto
termination
proof (relation "measure (\<lambda>(t, finish_time, s). unread t s)", goal_cases)
  case 1
  show ?case by simp
next
  case (2 t finish_time s x1 s1 time_left x2 s2 obj b)
  from 2(1) have "unread t s1 = unread t s"
    using call_time_left_frame [of finish_time s x1 s1] by (simp add: unread_def)
  moreover from 2(3) 2(4) have "unread t s2 < unread t s1"
    using recv_json_unread [of t time_left s1 obj s2] by simp
  moreover have "unread t (s2\<lparr>notifications := notifications s2 @ [obj]\<rparr>) = unread t s2"
    by (simp add: unread_def)
  ultimately show ?case by simp
qed

declare call_loop.simps [simp del]

text \<open>\<^verbatim>\<open>call(name, *args, **kwargs)\<close>; \<open>timeout\<close> is the keyword popped from
  \<^verbatim>\<open>kwargs\<close>, and \<^verbatim>\<open>time.time()\<close> is read only when it is not \<^verbatim>\<open>None\<close>.\<close>

definition call ::
  "thread \<Rightarrow> string \<Rightarrow> json list \<Rightarrow> (string \<times> json) list \<Rightarrow> real option \<Rightarrow> pc
   \<Rightarrow> (error + json) \<times> pc" where
  "call t name args kwargs timeout s =
     (case (case timeout of
              None \<Rightarrow> (None, s)
            | Some tm \<Rightarrow> (case time_time s of (n, s0) \<Rightarrow> (Some (n + tm), s0))) of
        (finish_time, s0) \<Rightarrow>
          let command = JObj [(''command'', JStr name), (''args'', JList args),
                              (''kwargs'', JObj kwargs)]
          in case send_json t command timeout s0 of
               (Inl e, s1) \<Rightarrow> (Inl e, s1)
             | (Inr u, s1) \<Rightarrow> call_loop t finish_time s1)"

text \<open>\<^verbatim>\<open>wait_for_notification(timeout)\<close>.\<close>

definition wait_for_notification :: "thread \<Rightarrow> real option \<Rightarrow> pc \<Rightarrow> (error + json) \<times> pc" where
  "wait_for_notification t timeout s =
     (case notifications s of
        n # ns \<Rightarrow> (Inr n, s\<lparr>notifications := ns\<rparr>)
      | [] \<Rightarrow>
          (case timeout of
             None \<Rightarrow> recv_json t timeout s
           | Some x \<Rightarrow> if x \<ge> 0 then recv_json t timeout s else (Inr JNull, s)))"

section \<open>Example environments\<close>

text \<open>\<^verbatim>\<open>ProtocolClient.__init__\<close>, with the environment the client will run against.\<close>

definition new_client ::
  "(bytes \<Rightarrow> json option) \<Rightarrow> (json \<Rightarrow> bytes) \<Rightarrow> (json \<Rightarrow> job_state option) \<Rightarrow>
   real list \<Rightarrow> bool list \<Rightarrow> send_outcome list \<Rightarrow> recv_outcome list \<Rightarrow> pc" where
  "new_client loads dumps jst tks cns sds rcs =
     \<lparr>socks = [], local_sock = Map.empty, local_buffer = Map.empty, notifications = [],
      dead = False, json_loads = loads, json_dumps = dumps, JobState = jst, now = 0,
      ticks = tks, connects = cns, sends = sds, recvs = rcs, next_sock = 0,
      closed_socks = [], sent = [], warnings = [], polled = []\<rparr>"

text \<open>
  A small codec for the examples: the line \<^verbatim>\<open>Rxyz\<close> decodes to the response
  \<^verbatim>\<open>{"return": "xyz"}\<close>, the line \<^verbatim>\<open>Nxyz\<close> to the notification
  \<^verbatim>\<open>{"jobs_changed": "xyz"}\<close>, the line \<^verbatim>\<open>S3xyz\<close> to the response that carries the job
  state 3 with the reason \<^verbatim>\<open>xyz\<close>, and nothing else decodes. The states are numbered
  as the server numbers them.
\<close>

definition example_loads :: "bytes \<Rightarrow> json option" where
  "example_loads b =
     (case b of
        [] \<Rightarrow> None
      | c # v \<Rightarrow>
          if c = CHR ''R'' then Some (JObj [(''return'', JStr v)])
          else if c = CHR ''N'' then Some (JObj [(''jobs_changed'', JStr v)])
          else if c = CHR ''S'' then
            (case v of
               [] \<Rightarrow> None
             | d # reason \<Rightarrow>
                 Some (JObj [(''return'',
                   JObj [(''state'', JInt (int (of_char d) - 48)), (''power'', JNull),
                         (''keepalive'', JNull), (''reason'', JStr reason)])]))
          else None)"

definition example_dumps :: "json \<Rightarrow> bytes" where
  "example_dumps obj = ''C''"

definition example_JobState :: "json \<Rightarrow> job_state option" where
  "example_JobState v =
     (if v = JInt 0 then Some Unknown
      else if v = JInt 1 then Some Queued
      else if v = JInt 2 then Some Power
      else if v = JInt 3 then Some Ready
      else if v = JInt 4 then Some Destroyed
      else None)"

definition example_client :: "real list \<Rightarrow> recv_outcome list \<Rightarrow> pc" where
  "example_client tks rcs = new_client example_loads example_dumps example_JobState tks [] [] rcs"

section \<open>Properties of the protocol client\<close>

text \<open>
  C5. \<^verbatim>\<open>wait_for_notification\<close>: when the queue is not empty its oldest entry is popped
  and returned whatever the timeout is; when the queue is empty and the timeout is
  negative the result is \<^verbatim>\<open>None\<close> and the state is untouched, so nothing was received
  from the socket.
\<close>

theorem wait_for_notification_queue_or_poll:
  "(notifications s = n # ns \<longrightarrow>
      wait_for_notification t timeout s = (Inr n, s\<lparr>notifications := ns\<rparr>)) \<and>
   (notifications s = [] \<and> timeout = Some x \<and> x < 0 \<longrightarrow>
      wait_for_notification t timeout s = (Inr JNull, s))"
  by (simp add: wait_for_notification_def)

theorem wait_for_notification_queue_or_poll_witness:
  "wait_for_notification 0 (Some 5)
     ((example_client [] [])\<lparr>notifications := [JInt 1, JInt 2]\<rparr>) =
     (Inr (JInt 1), (example_client [] [])\<lparr>notifications := [JInt 2]\<rparr>) \<and>
   wait_for_notification 0 (Some (- 1)) (example_client [] []) =
     (Inr JNull, example_client [] [])"
  using wait_for_notification_queue_or_poll
          [of "(example_client [] [])\<lparr>notifications := [JInt 1, JInt 2]\<rparr>"
              "JInt 1" "[JInt 2]" 0 "Some 5" 0]
        wait_for_notification_queue_or_poll
          [of "example_client [] []" JNull "[]" 0 "Some (- 1)" "- 1"]
  by (simp add: example_client_def new_client_def)

text \<open>The operations of a client other than \<^verbatim>\<open>connect()\<close>, each run by some thread,
  to speak about what happens after \<^verbatim>\<open>close()\<close>.\<close>

datatype client_op =
    OpGetConnection "real option"
  | OpCloseOne thread
  | OpClose
  | OpRecvJson "real option"
  | OpSendJson json "real option"
  | OpCall string "json list" "(string \<times> json) list" "real option"
  | OpWaitForNotification "real option"

fun run_op :: "thread \<times> client_op \<Rightarrow> pc \<Rightarrow> pc" where
  "run_op (t, OpGetConnection timeout) s = snd (get_connection t timeout s)"
| "run_op (t, OpCloseOne key) s = close_one t key s"
| "run_op (t, OpClose) s = close t s"
| "run_op (t, OpRecvJson timeout) s = snd (recv_json t timeout s)"
| "run_op (t, OpSendJson obj timeout) s = snd (send_json t obj timeout s)"
| "run_op (t, OpCall name args kwargs timeout) s = snd (call t name args kwargs timeout s)"
| "run_op (t, OpWaitForNotification timeout) s = snd (wait_for_notification t timeout s)"

definition run_ops :: "(thread \<times> client_op) list \<Rightarrow> pc \<Rightarrow> pc" where
  "run_ops ops s = fold run_op ops s"

lemma sock_recv_keeps:
  "sock_recv k s = (r, s') \<Longrightarrow>
   dead s' = dead s \<and> socks s' = socks s \<and> next_sock s' = next_sock s \<and>
   closed_socks s' = closed_socks s \<and> notifications s' = notifications s \<and>
   local_buffer s' = local_buffer s \<and> json_loads s' = json_loads s \<and>
   polled s' = polled s"
  by (auto simp: sock_recv_def split: if_splits list.splits recv_outcome.splits)

lemma sock_send_keeps:
  "sock_send k d s = (r, s') \<Longrightarrow>
   dead s' = dead s \<and> socks s' = socks s \<and> next_sock s' = next_sock s \<and>
   closed_socks s' = closed_socks s \<and> notifications s' = notifications s \<and>
   local_buffer s' = local_buffer s \<and> recvs s' = recvs s \<and> json_loads s' = json_loads s \<and>
   polled s' = polled s"
  by (auto simp: sock_send_def split: if_splits list.splits send_outcome.splits)

lemma recv_line_keeps:
  "recv_line t so s = (r, s') \<Longrightarrow>
   dead s' = dead s \<and> socks s' = socks s \<and> next_sock s' = next_sock s \<and>
   closed_socks s' = closed_socks s \<and> notifications s' = notifications s \<and>
   json_loads s' = json_loads s \<and> polled s' = polled s"
proof (induction t so s rule: recv_line.induct)
  case (1 t so s)
  show ?case
  proof (cases "local_buffer s t")
    case None
    with "1.prems" show ?thesis by (subst (asm) recv_line.simps) auto
  next
    case (Some buf)
    show ?thesis
    proof (cases "newline \<in> set buf")
      case True
      with "1.prems" Some show ?thesis
        by (subst (asm) recv_line.simps)
           (auto simp: Let_def split: option.splits prod.splits)
    next
      case nl: False
      show ?thesis
      proof (cases so)
        case None
        with "1.prems" Some nl show ?thesis by (subst (asm) recv_line.simps) auto
      next
        case so: (Some k)
        obtain r1 s1 where sr: "sock_recv k s = (r1, s1)" by (cases "sock_recv k s")
        note k1 = sock_recv_keeps [OF sr]
        show ?thesis
        proof (cases r1)
          case (Inl e)
          with "1.prems" Some nl so sr k1 show ?thesis
            by (subst (asm) recv_line.simps) auto
        next
          case (Inr data)
          show ?thesis
          proof (cases "length data = 0")
            case True
            with "1.prems" Some nl so sr k1 Inr show ?thesis
              by (subst (asm) recv_line.simps) auto
          next
            case False
            with "1.prems" Some nl so sr Inr
            have rec: "recv_line t so (s1\<lparr>local_buffer := (local_buffer s1)(t \<mapsto> buf @ data)\<rparr>) = (r, s')"
              by (subst (asm) recv_line.simps) auto
            from "1.IH" [OF Some nl so sr [symmetric] Inr False rec] k1
            show ?thesis by simp
          qed
        qed
      qed
    qed
  qed
qed


definition shut :: "pc \<Rightarrow> bool" where
  "shut s = (dead s \<and> socks s = [])"

lemma fold_close_one:
  "socks (fold (close_one t) keys s) = filter (\<lambda>(k, v). k \<notin> set keys) (socks s) \<and>
   dead (fold (close_one t) keys s) = dead s \<and>
   next_sock (fold (close_one t) keys s) = next_sock s \<and>
   set (closed_socks (fold (close_one t) keys s)) =
     set (closed_socks s) \<union> {v. \<exists>k \<in> set keys. map_of (socks s) k = Some v}"
proof (induction keys arbitrary: s)
  case Nil
  show ?case by simp
next
  case (Cons key keys)
  let ?s1 = "close_one t key s"
  have s1: "socks ?s1 = AList.delete key (socks s) \<and> dead ?s1 = dead s \<and>
    next_sock ?s1 = next_sock s \<and>
    set (closed_socks ?s1) = set (closed_socks s) \<union> {v. map_of (socks s) key = Some v}"
  proof (cases "map_of (socks s) key")
    case None
    then have "key \<notin> fst ` set (socks s)" by (simp add: map_of_eq_None_iff)
    then have "AList.delete key (socks s) = socks s" by (simp add: delete_id)
    with None show ?thesis by (simp add: close_one_def)
  next
    case (Some v)
    then show ?thesis by (auto simp: close_one_def sock_close_def Let_def)
  qed
  have m: "\<And>k. map_of (AList.delete key (socks s)) k = (if k = key then None else map_of (socks s) k)"
    by (simp add: delete_conv)
  note ih = Cons.IH [of ?s1]
  have a: "socks (fold (close_one t) (key # keys) s) =
           filter (\<lambda>(k, v). k \<notin> set (key # keys)) (socks s)"
    using ih s1 by (auto simp: AList.delete_eq intro!: filter_cong)
  have b: "{v. \<exists>k \<in> set keys. map_of (socks ?s1) k = Some v} \<union> {v. map_of (socks s) key = Some v} =
           {v. \<exists>k \<in> set (key # keys). map_of (socks s) k = Some v}"
    using s1 by (auto simp: m split: if_splits)
  have c: "set (closed_socks (fold (close_one t) (key # keys) s)) =
           set (closed_socks s) \<union> {v. \<exists>k \<in> set (key # keys). map_of (socks s) k = Some v}"
    using ih s1 b by (simp add: Un_assoc Un_commute)
  from a c ih s1 show ?case by simp
qed

lemma close_effect:
  assumes "distinct (map fst (socks s))"
  shows "shut (close t s)" "next_sock (close t s) = next_sock s"
    "set (map snd (socks s)) \<subseteq> set (closed_socks (close t s))"
proof -
  let ?s1 = "s\<lparr>dead := True\<rparr>"
  note f = fold_close_one [of t "map fst (socks ?s1)" ?s1]
  have "filter (\<lambda>(k, v). k \<notin> set (map fst (socks s))) (socks s) = []"
    by (auto simp: filter_empty_conv intro: rev_image_eqI)
  with f show "shut (close t s)" "next_sock (close t s) = next_sock s"
    by (simp_all add: close_def Let_def shut_def)
  show "set (map snd (socks s)) \<subseteq> set (closed_socks (close t s))"
  proof
    fix v assume "v \<in> set (map snd (socks s))"
    then obtain k where kv: "(k, v) \<in> set (socks s)" by auto
    with assms have "map_of (socks s) k = Some v" by simp
    with kv have "\<exists>k' \<in> set (map fst (socks s)). map_of (socks s) k' = Some v"
      by force
    with f show "v \<in> set (closed_socks (close t s))"
      by (simp add: close_def Let_def)
  qed
qed


lemma close_one_shut: "shut s \<Longrightarrow> close_one t key s = s"
  by (simp add: shut_def close_one_def)

lemma time_time_keeps:
  "time_time s = (n, s') \<Longrightarrow>
   dead s' = dead s \<and> socks s' = socks s \<and> next_sock s' = next_sock s \<and>
   closed_socks s' = closed_socks s"
  by (auto simp: time_time_def split: list.splits)

lemma get_connection_shut: "shut s \<Longrightarrow> get_connection t timeout s = (Inr None, s)"
  by (simp add: shut_def get_connection_dead)

lemma recv_json_shut:
  "shut s \<Longrightarrow> recv_json t timeout s = (r, s') \<Longrightarrow> shut s' \<and> next_sock s' = next_sock s"
  by (auto simp: recv_json_def get_connection_shut shut_def dest!: recv_line_keeps)

lemma send_json_shut: "shut s \<Longrightarrow> send_json t obj timeout s = (Inl AttributeError, s)"
  by (simp add: send_json_def get_connection_shut)

lemma call_shut:
  "shut s \<Longrightarrow> call t name args kwargs timeout s = (r, s') \<Longrightarrow>
   shut s' \<and> next_sock s' = next_sock s"
proof (cases timeout)
  case None
  assume "shut s" "call t name args kwargs timeout s = (r, s')"
  with None show ?thesis by (simp add: call_def send_json_shut)
next
  case (Some tm)
  assume sh: "shut s" and c: "call t name args kwargs timeout s = (r, s')"
  obtain n s0 where tt: "time_time s = (n, s0)" by (cases "time_time s")
  from time_time_keeps [OF tt] sh have sh0: "shut s0" "next_sock s0 = next_sock s"
    by (simp_all add: shut_def)
  from c Some tt sh0 show ?thesis by (simp add: call_def send_json_shut)
qed

lemma wait_for_notification_shut:
  "shut s \<Longrightarrow> wait_for_notification t timeout s = (r, s') \<Longrightarrow>
   shut s' \<and> next_sock s' = next_sock s"
  by (auto simp: wait_for_notification_def shut_def [of "s\<lparr>notifications := x\<rparr>" for x]
           split: list.splits option.splits if_splits dest: recv_json_shut)
     (auto simp: shut_def)

lemma close_shut: "shut s \<Longrightarrow> shut (close t s) \<and> next_sock (close t s) = next_sock s"
  by (simp add: shut_def close_def)

lemma run_op_shut: "shut s \<Longrightarrow> shut (run_op op s) \<and> next_sock (run_op op s) = next_sock s"
proof (cases op)
  case (Pair t c)
  assume sh: "shut s"
  show ?thesis
  proof (cases c)
    case (OpGetConnection timeout)
    with Pair sh show ?thesis by (simp add: get_connection_shut)
  next
    case (OpCloseOne key)
    with Pair sh show ?thesis by (simp add: close_one_shut)
  next
    case OpClose
    with Pair sh show ?thesis by (simp add: close_shut)
  next
    case (OpRecvJson timeout)
    with Pair sh recv_json_shut [of s t timeout "fst (recv_json t timeout s)" "snd (recv_json t timeout s)"]
    show ?thesis by simp
  next
    case (OpSendJson obj timeout)
    with Pair sh show ?thesis by (simp add: send_json_shut)
  next
    case (OpCall name args kwargs timeout)
    with Pair sh call_shut [of s t name args kwargs timeout
        "fst (call t name args kwargs timeout s)" "snd (call t name args kwargs timeout s)"]
    show ?thesis by simp
  next
    case (OpWaitForNotification timeout)
    with Pair sh wait_for_notification_shut [of s t timeout
        "fst (wait_for_notification t timeout s)" "snd (wait_for_notification t timeout s)"]
    show ?thesis by simp
  qed
qed

lemma run_ops_shut: "shut s \<Longrightarrow> shut (run_ops ops s) \<and> next_sock (run_ops ops s) = next_sock s"
  unfolding run_ops_def
proof (induction ops arbitrary: s)
  case Nil
  then show ?case by simp
next
  case (Cons op ops)
  from run_op_shut [OF Cons.prems, of op] Cons.IH [of "run_op op s"]
  show ?case by simp
qed

text \<open>
  C9. After \<^verbatim>\<open>close()\<close> the dead flag is set, the table is empty and every socket it
  held is closed; and after any further operations of any threads other than
  \<^verbatim>\<open>connect()\<close>, \<^verbatim>\<open>_get_connection\<close> still returns \<^verbatim>\<open>None\<close>, the table is still empty
  and no socket has been created.
\<close>

theorem close_refuses_connections:
  assumes "distinct (map fst (socks s))"
  shows "dead (close t s) \<and> socks (close t s) = [] \<and>
         set (map snd (socks s)) \<subseteq> set (closed_socks (close t s)) \<and>
         get_connection t' timeout (run_ops ops (close t s)) =
           (Inr None, run_ops ops (close t s)) \<and>
         socks (run_ops ops (close t s)) = [] \<and>
         next_sock (run_ops ops (close t s)) = next_sock s"
proof -
  note c = close_effect [OF assms, of t]
  from run_ops_shut [OF c(1), of ops] c
  show ?thesis by (simp add: shut_def get_connection_dead)
qed

definition example_two_connections :: pc where
  "example_two_connections =
     run_ops [(0, OpGetConnection None), (1, OpGetConnection (Some 1))] (example_client [] [])"

lemma example_two_connections_socks: "socks example_two_connections = [(0, 0), (1, 1)]"
  by (simp add: example_two_connections_def run_ops_def example_client_def new_client_def
        get_connection_absent get_connection_present connect_sock_present
        sock_settimeout_def sock_connect_def Let_def)

theorem close_refuses_connections_witness:
  "distinct (map fst (socks example_two_connections)) \<and>
   dead (close 0 example_two_connections) \<and>
   socks (close 0 example_two_connections) = [] \<and>
   {0, 1} \<subseteq> set (closed_socks (close 0 example_two_connections)) \<and>
   get_connection 1 None
     (run_ops [(0, OpCall ''version'' [] [] None), (1, OpRecvJson None)]
        (close 0 example_two_connections)) =
     (Inr None, run_ops [(0, OpCall ''version'' [] [] None), (1, OpRecvJson None)]
        (close 0 example_two_connections))"
  using close_refuses_connections [of example_two_connections 0 1 None
          "[(0, OpCall ''version'' [] [] None), (1, OpRecvJson None)]"]
  by (simp add: example_two_connections_socks)

text \<open>Successive calls of \<^verbatim>\<open>_recv_json\<close> by one thread, the framing of lines as bytes
  and the result of decoding one line, to state what the calls deliver.\<close>

definition decode_line :: "pc \<Rightarrow> bytes \<Rightarrow> error + json" where
  "decode_line s line = (case json_loads s line of None \<Rightarrow> Inl ValueError | Some obj \<Rightarrow> Inr obj)"

definition lines_bytes :: "bytes list \<Rightarrow> bytes" where
  "lines_bytes ls = concat (map (\<lambda>l. l @ [newline]) ls)"

fun successive_recv_json ::
  "nat \<Rightarrow> thread \<Rightarrow> real option \<Rightarrow> pc \<Rightarrow> (error + json) list \<times> pc" where
  "successive_recv_json 0 t timeout s = ([], s)"
| "successive_recv_json (Suc n) t timeout s =
     (case recv_json t timeout s of (r, s1) \<Rightarrow>
        (case successive_recv_json n t timeout s1 of (rs, s2) \<Rightarrow> (r # rs, s2)))"

lemma partition_newline_first:
  "newline \<notin> set line \<Longrightarrow> partition_newline (line @ newline # rest) = (line, rest)"
  by (induction line) (auto simp: partition_newline_def)

lemma recv_line_buffered:
  assumes "local_buffer s t = Some (line @ newline # rest)" "newline \<notin> set line"
  shows "recv_line t so s =
           (decode_line s line, s\<lparr>local_buffer := (local_buffer s)(t \<mapsto> rest)\<rparr>)"
  using assms
  by (subst recv_line.simps)
     (simp add: partition_newline_first decode_line_def Let_def split: option.splits)

lemma recv_line_read:
  assumes "local_buffer s t = Some b" "newline \<notin> set b" "k \<notin> set (closed_socks s)"
    "recvs s = RecvData d # es" "d \<noteq> []"
  shows "recv_line t (Some k) s =
           recv_line t (Some k) (s\<lparr>recvs := es, local_buffer := (local_buffer s)(t \<mapsto> b @ d)\<rparr>)"
  using assms
  by (subst recv_line.simps) (simp add: sock_recv_def)

text \<open>Thread \<open>t\<close> has the socket \<open>k\<close> in the table of a client that is not dead, and
  the socket accepts the timeout.\<close>

definition live :: "thread \<Rightarrow> sock \<Rightarrow> real option \<Rightarrow> pc \<Rightarrow> bool" where
  "live t k timeout s =
     (\<not> dead s \<and> map_of (socks s) t = Some k \<and> sock_settimeout k timeout s = Inr ())"

lemma recv_json_live: "live t k timeout s \<Longrightarrow> recv_json t timeout s = recv_line t (Some k) s"
  by (simp add: live_def recv_json_def get_connection_present)

lemma live_buffer [simp]: "live t k timeout (s\<lparr>local_buffer := b\<rparr>) = live t k timeout s"
  by (simp add: live_def sock_settimeout_def)

lemma live_recvs [simp]: "live t k timeout (s\<lparr>recvs := b\<rparr>) = live t k timeout s"
  by (simp add: live_def sock_settimeout_def)

lemma decode_line_buffer [simp]: "decode_line (s\<lparr>local_buffer := b\<rparr>) = decode_line s"
  by (simp add: decode_line_def fun_eq_iff)

lemma decode_line_recvs [simp]: "decode_line (s\<lparr>recvs := b\<rparr>) = decode_line s"
  by (simp add: decode_line_def fun_eq_iff)

lemma successive_buffered:
  assumes "live t k timeout s"
    and "local_buffer s t = Some (lines_bytes ls @ rest)"
    and "\<forall>l \<in> set ls. newline \<notin> set l"
  shows "successive_recv_json (length ls) t timeout s =
           (map (decode_line s) ls, s\<lparr>local_buffer := (local_buffer s)(t \<mapsto> rest)\<rparr>)"
  using assms
proof (induction ls arbitrary: s)
  case Nil
  then have "(local_buffer s)(t \<mapsto> rest) = local_buffer s"
    by (simp add: lines_bytes_def fun_upd_idem)
  then show ?case by simp
next
  case (Cons l ls)
  let ?s1 = "s\<lparr>local_buffer := (local_buffer s)(t \<mapsto> lines_bytes ls @ rest)\<rparr>"
  from Cons.prems have b: "local_buffer s t = Some (l @ newline # (lines_bytes ls @ rest))"
    and nl: "newline \<notin> set l"
    by (simp_all add: lines_bytes_def)
  from recv_json_live [OF Cons.prems(1)] recv_line_buffered [OF b nl]
  have r: "recv_json t timeout s = (decode_line s l, ?s1)" by simp
  have "successive_recv_json (length ls) t timeout ?s1 =
          (map (decode_line ?s1) ls, ?s1\<lparr>local_buffer := (local_buffer ?s1)(t \<mapsto> rest)\<rparr>)"
    using Cons.prems by (intro Cons.IH) simp_all
  moreover have "?s1\<lparr>local_buffer := (local_buffer ?s1)(t \<mapsto> rest)\<rparr> =
                 s\<lparr>local_buffer := (local_buffer s)(t \<mapsto> rest)\<rparr>"
    by simp
  ultimately show ?case using r by (simp del: fun_upd_apply)
qed

text \<open>
  C10. On a thread with a usable connection, \<^verbatim>\<open>_recv_json\<close> takes the bytes up to and
  including the first newline out of the buffer and leaves what follows: when the
  buffer holds the lines \<open>ls\<close> followed by \<open>rest\<close>, as many calls as there are lines
  return the decoded lines in order and leave \<open>rest\<close>; and the same holds when the lines
  arrive in one socket read that completes a buffer without a newline.
\<close>

theorem recv_json_one_line_per_call:
  assumes "live t k timeout s" and "\<forall>l \<in> set ls. newline \<notin> set l"
  shows "(local_buffer s t = Some (lines_bytes ls @ rest) \<longrightarrow>
            successive_recv_json (length ls) t timeout s =
              (map (decode_line s) ls, s\<lparr>local_buffer := (local_buffer s)(t \<mapsto> rest)\<rparr>)) \<and>
         (local_buffer s t = Some b \<and> newline \<notin> set b \<and> recvs s = RecvData d # es \<and>
          d \<noteq> [] \<and> ls \<noteq> [] \<and> b @ d = lines_bytes ls @ rest \<longrightarrow>
            successive_recv_json (length ls) t timeout s =
              (map (decode_line s) ls,
               s\<lparr>recvs := es, local_buffer := (local_buffer s)(t \<mapsto> rest)\<rparr>))"
proof (intro conjI impI)
  assume "local_buffer s t = Some (lines_bytes ls @ rest)"
  from successive_buffered [OF assms(1) this assms(2)]
  show "successive_recv_json (length ls) t timeout s =
      (map (decode_line s) ls, s\<lparr>local_buffer := (local_buffer s)(t \<mapsto> rest)\<rparr>)" .
next
  assume h: "local_buffer s t = Some b \<and> newline \<notin> set b \<and> recvs s = RecvData d # es \<and>
          d \<noteq> [] \<and> ls \<noteq> [] \<and> b @ d = lines_bytes ls @ rest"
  let ?s1 = "s\<lparr>recvs := es, local_buffer := (local_buffer s)(t \<mapsto> b @ d)\<rparr>"
  from assms(1) have k: "k \<notin> set (closed_socks s)"
    by (auto simp: live_def sock_settimeout_def split: if_splits)
  from h obtain n where n: "length ls = Suc n" by (cases ls) auto
  from h k have "recv_line t (Some k) s = recv_line t (Some k) ?s1"
    by (intro recv_line_read) simp_all
  with assms(1) have "recv_json t timeout s = recv_json t timeout ?s1"
    by (simp add: recv_json_live)
  then have "successive_recv_json (length ls) t timeout s =
             successive_recv_json (length ls) t timeout ?s1"
    by (simp add: n)
  also have "\<dots> = (map (decode_line ?s1) ls, ?s1\<lparr>local_buffer := (local_buffer ?s1)(t \<mapsto> rest)\<rparr>)"
    using assms h by (intro successive_buffered) simp_all
  finally show "successive_recv_json (length ls) t timeout s =
      (map (decode_line s) ls, s\<lparr>recvs := es, local_buffer := (local_buffer s)(t \<mapsto> rest)\<rparr>)"
    by simp
qed

definition example_stream :: pc where
  "example_stream =
     snd (get_connection 0 None
            (example_client []
               [RecvData (''Ra'' @ [newline] @ ''Nb'' @ [newline] @ ''Rc'' @ [newline] @ ''Nd'')]))"

lemma example_stream_fields:
  "\<not> dead example_stream" "socks example_stream = [(0, 0)]"
  "closed_socks example_stream = []" "local_buffer example_stream 0 = Some []"
  "recvs example_stream =
     [RecvData (''Ra'' @ [newline] @ ''Nb'' @ [newline] @ ''Rc'' @ [newline] @ ''Nd'')]"
  "json_loads example_stream = example_loads"
  by (simp_all add: example_stream_def example_client_def new_client_def
        get_connection_absent get_connection_present connect_sock_present
        sock_settimeout_def sock_connect_def Let_def)

theorem recv_json_one_line_per_call_witness:
  "live 0 0 None example_stream \<and>
   successive_recv_json 3 0 None example_stream =
     ([Inr (JObj [(''return'', JStr ''a'')]), Inr (JObj [(''jobs_changed'', JStr ''b'')]),
       Inr (JObj [(''return'', JStr ''c'')])],
      example_stream\<lparr>recvs := [], local_buffer := (local_buffer example_stream)(0 \<mapsto> ''Nd'')\<rparr>)"
  using recv_json_one_line_per_call [of 0 0 None example_stream "[''Ra'', ''Nb'', ''Rc'']"
          "''Nd''" "[]" "''Ra'' @ [newline] @ ''Nb'' @ [newline] @ ''Rc'' @ [newline] @ ''Nd''" "[]"]
  by (simp add: live_def example_stream_fields sock_settimeout_def lines_bytes_def
        decode_line_def example_loads_def newline_def numeral_3_eq_3)

text \<open>The bytes a thread has still to read: the buffer of its connection (a thread
  without a connection starts from an empty buffer when it connects), then the chunks
  the socket will deliver. \<open>arriving\<close> stops at the first receive that fails, times out
  or finds the stream closed: these are the bytes that reach the thread.\<close>

definition buffered :: "thread \<Rightarrow> pc \<Rightarrow> bytes" where
  "buffered t s =
     (if map_of (socks s) t = None then []
      else case local_buffer s t of None \<Rightarrow> [] | Some b \<Rightarrow> b)"

definition chunk_bytes :: "recv_outcome \<Rightarrow> bytes" where
  "chunk_bytes r = (case r of RecvData d \<Rightarrow> d | _ \<Rightarrow> [])"

definition good_chunk :: "recv_outcome \<Rightarrow> bool" where
  "good_chunk r = (case r of RecvData d \<Rightarrow> d \<noteq> [] | _ \<Rightarrow> False)"

definition stream :: "thread \<Rightarrow> pc \<Rightarrow> bytes" where
  "stream t s = buffered t s @ concat (map chunk_bytes (recvs s))"

definition arriving :: "thread \<Rightarrow> pc \<Rightarrow> bytes" where
  "arriving t s = buffered t s @ concat (map chunk_bytes (takeWhile good_chunk (recvs s)))"

text \<open>
  What a sequence of lines means to a caller waiting for a response: the lines before
  the first one with \<^verbatim>\<open>"return"\<close> are notifications, and that one decides the result.
  A line that does not decode, or a value on which \<^verbatim>\<open>in\<close> or the subscript fails,
  decides it with the exception.
\<close>

fun first_response ::
  "(bytes \<Rightarrow> json option) \<Rightarrow> bytes list \<Rightarrow> json list \<times> (error + json) option" where
  "first_response loads [] = ([], None)"
| "first_response loads (l # ls) =
     (case loads l of
        None \<Rightarrow> ([], Some (Inl ValueError))
      | Some obj \<Rightarrow>
          (case py_in ''return'' obj of
             Inl e \<Rightarrow> ([], Some (Inl e))
           | Inr True \<Rightarrow> ([], Some (py_getitem obj ''return''))
           | Inr False \<Rightarrow>
               (case first_response loads ls of (ns, r) \<Rightarrow> (obj # ns, r))))"

text \<open>Thread \<open>t\<close> has the socket \<open>k\<close> in the table of a client that is not dead.\<close>

definition conn :: "thread \<Rightarrow> sock \<Rightarrow> pc \<Rightarrow> bool" where
  "conn t k s = (\<not> dead s \<and> map_of (socks s) t = Some k)"

text \<open>
  What lets a call go through: the client is not dead, the timeout is not negative,
  the next send takes the whole line, and the thread has an open socket with a
  buffer, or has none and the next connection attempt succeeds on a fresh socket.
  \<open>in_time\<close> says that the clock never reaches the deadline of the call: every reading
  after the one that fixes the deadline stays below it.
\<close>

definition ready_to_call :: "thread \<Rightarrow> real option \<Rightarrow> pc \<Rightarrow> bool" where
  "ready_to_call t timeout s =
     (\<not> dead s \<and>
      (case timeout of None \<Rightarrow> True | Some x \<Rightarrow> 0 \<le> x) \<and>
      (case sends s of [] \<Rightarrow> True | out # outs \<Rightarrow> out = SendAll) \<and>
      (case map_of (socks s) t of
         Some k \<Rightarrow> k \<notin> set (closed_socks s) \<and> local_buffer s t \<noteq> None
       | None \<Rightarrow>
           next_sock s \<notin> set (closed_socks s) \<and>
           (case connects s of [] \<Rightarrow> True | ok # oks \<Rightarrow> ok)))"

fun stays_before :: "real \<Rightarrow> real \<Rightarrow> real list \<Rightarrow> bool" where
  "stays_before f n [] = (n < f)"
| "stays_before f n (d # ds) = (n + d < f \<and> stays_before f (n + d) ds)"

definition open_until :: "real option \<Rightarrow> pc \<Rightarrow> bool" where
  "open_until finish_time s =
     (case finish_time of None \<Rightarrow> True | Some f \<Rightarrow> stays_before f (now s) (ticks s))"

definition in_time :: "real option \<Rightarrow> pc \<Rightarrow> bool" where
  "in_time timeout s =
     (case timeout of
        None \<Rightarrow> True
      | Some x \<Rightarrow> (case time_time s of (n, s0) \<Rightarrow> open_until (Some (n + x)) s0))"

lemma sock_recv_stream:
  assumes "sock_recv k s = (x, s1)"
  shows "local_buffer s1 = local_buffer s \<and>
         (case x of
            Inl e \<Rightarrow> stream t s1 = stream t s
          | Inr data \<Rightarrow> (data = [] \<longrightarrow> stream t s1 = stream t s) \<and>
                        (data \<noteq> [] \<longrightarrow> recvs s = RecvData data # recvs s1))"
  using assms
  by (auto simp: sock_recv_def stream_def buffered_def chunk_bytes_def
           split: if_splits list.splits recv_outcome.splits)

lemma recv_line_stream:
  "recv_line t so s = (x, s') \<Longrightarrow> map_of (socks s) t = Some k' \<Longrightarrow>
     (\<exists>line. stream t s = line @ newline # stream t s' \<and> newline \<notin> set line \<and>
        x = (case json_loads s line of None \<Rightarrow> Inl ValueError | Some obj \<Rightarrow> Inr obj)) \<or>
     (\<exists>e. x = Inl e \<and> stream t s' = stream t s)"
proof (induction t so s rule: recv_line.induct)
  case (1 t so s)
  note sk = \<open>map_of (socks s) t = Some k'\<close>
  show ?case
  proof (cases "local_buffer s t")
    case None
    with "1.prems" show ?thesis by (subst (asm) recv_line.simps) auto
  next
    case (Some buf)
    show ?thesis
    proof (cases "newline \<in> set buf")
      case True
      then obtain line rest where b: "buf = line @ newline # rest" "newline \<notin> set line"
        by (metis split_list_first)
      with Some sk have "stream t s = line @ newline # stream t (s\<lparr>local_buffer := (local_buffer s)(t \<mapsto> rest)\<rparr>)"
        by (simp add: stream_def buffered_def)
      with "1.prems" Some b recv_line_buffered [of s t line rest so]
      show ?thesis by (auto simp: decode_line_def)
    next
      case nl: False
      show ?thesis
      proof (cases so)
        case None
        with "1.prems" Some nl show ?thesis by (subst (asm) recv_line.simps) auto
      next
        case so: (Some k)
        obtain r1 s1 where sr: "sock_recv k s = (r1, s1)" by (cases "sock_recv k s")
        note k1 = sock_recv_stream [OF sr, of t] sock_recv_keeps [OF sr]
        show ?thesis
        proof (cases r1)
          case (Inl e)
          with "1.prems" Some nl so sr k1 show ?thesis
            by (subst (asm) recv_line.simps) auto
        next
          case (Inr data)
          show ?thesis
          proof (cases "length data = 0")
            case True
            with "1.prems" Some nl so sr k1 Inr show ?thesis
              by (subst (asm) recv_line.simps) auto
          next
            case False
            let ?s2 = "s1\<lparr>local_buffer := (local_buffer s1)(t \<mapsto> buf @ data)\<rparr>"
            from "1.prems" Some nl so sr Inr False
            have rec: "recv_line t so ?s2 = (x, s')"
              by (subst (asm) recv_line.simps) auto
            from k1 sk have sk2: "map_of (socks ?s2) t = Some k'" by simp
            from k1 Inr False Some sk
            have "stream t ?s2 = stream t s" "json_loads ?s2 = json_loads s"
              by (simp_all add: stream_def buffered_def chunk_bytes_def)
            with "1.IH" [OF Some nl so sr [symmetric] Inr False rec sk2]
            show ?thesis by simp
          qed
        qed
      qed
    qed
  qed
qed

lemma recv_json_conn:
  assumes "conn t k s" "recv_json t timeout s = (x, s')"
  shows "conn t k s' \<and> json_loads s' = json_loads s \<and> notifications s' = notifications s \<and>
    ((\<exists>line. stream t s = line @ newline # stream t s' \<and> newline \<notin> set line \<and>
        x = (case json_loads s line of None \<Rightarrow> Inl ValueError | Some obj \<Rightarrow> Inr obj)) \<or>
     (\<exists>e. x = Inl e \<and> stream t s' = stream t s))"
proof (cases "sock_settimeout k timeout s")
  case (Inl e)
  with assms show ?thesis
    by (auto simp: conn_def recv_json_def get_connection_present)
next
  case (Inr u)
  with assms have rl: "recv_line t (Some k) s = (x, s')"
    by (simp add: conn_def recv_json_def get_connection_present)
  from assms(1) have sk: "map_of (socks s) t = Some k" by (simp add: conn_def)
  from recv_line_keeps [OF rl] recv_line_stream [OF rl sk] assms(1)
  show ?thesis by (simp add: conn_def)
qed

lemma call_time_left_conn:
  assumes "call_time_left ft s = (x, s1)"
  shows "conn t k s1 = conn t k s \<and> stream t s1 = stream t s \<and>
    json_loads s1 = json_loads s \<and> notifications s1 = notifications s \<and>
    (x = None \<longrightarrow> ft \<noteq> None)"
proof -
  from assms have "x = None \<longrightarrow> ft \<noteq> None"
    by (cases ft) (auto simp: call_time_left_def)
  with call_time_left_frame [OF assms] show ?thesis
    by (simp add: conn_def stream_def buffered_def)
qed

lemma call_loop_lines:
  "call_loop t ft s = (r, s') \<Longrightarrow> conn t k s \<Longrightarrow>
   (\<exists>ls. stream t s = lines_bytes ls @ stream t s' \<and> (\<forall>l \<in> set ls. newline \<notin> set l) \<and>
      notifications s' = notifications s @ fst (first_response (json_loads s) ls) \<and>
      (case snd (first_response (json_loads s) ls) of
         Some res \<Rightarrow> r = res \<and> length ls = Suc (length (fst (first_response (json_loads s) ls)))
       | None \<Rightarrow> (\<exists>e. r = Inl e) \<or> (r = Inr JNull \<and> ft \<noteq> None)))"
proof (induction t ft s rule: call_loop.induct)
  case (1 t ft s)
  obtain x1 s1 where tl: "call_time_left ft s = (x1, s1)" by (cases "call_time_left ft s")
  note f1 = call_time_left_conn [OF tl, of t k]
  show ?case
  proof (cases x1)
    case None
    with "1.prems" tl have "r = Inr JNull" "s' = s1"
      by (subst (asm) call_loop.simps, simp)+
    with f1 None show ?thesis
      by (intro exI [of _ "[]"]) (simp add: lines_bytes_def)
  next
    case (Some time_left)
    obtain x2 s2 where rj: "recv_json t time_left s1 = (x2, s2)"
      by (cases "recv_json t time_left s1")
    from f1 "1.prems" have c1: "conn t k s1" by simp
    from f1 have f1': "json_loads s1 = json_loads s" "notifications s1 = notifications s"
      "stream t s1 = stream t s" by simp_all
    note f2 = recv_json_conn [OF c1 rj]
    have unf: "call_loop t ft s =
      (case x2 of Inl e \<Rightarrow> (Inl e, s2)
       | Inr obj \<Rightarrow>
          (case py_in ''return'' obj of
             Inl e \<Rightarrow> (Inl e, s2)
           | Inr True \<Rightarrow>
               (case py_getitem obj ''return'' of Inl e \<Rightarrow> (Inl e, s2) | Inr v \<Rightarrow> (Inr v, s2))
           | Inr False \<Rightarrow> call_loop t ft (s2\<lparr>notifications := notifications s2 @ [obj]\<rparr>)))"
      using tl Some rj by (subst call_loop.simps) simp
    from f2 consider
        (err) e where "x2 = Inl e" "stream t s2 = stream t s1"
      | (line) line where "stream t s1 = line @ newline # stream t s2" "newline \<notin> set line"
          "x2 = (case json_loads s1 line of None \<Rightarrow> Inl ValueError | Some obj \<Rightarrow> Inr obj)"
      by blast
    then show ?thesis
    proof cases
      case err
      with "1.prems" unf have "r = Inl e" "s' = s2" by simp_all
      with err f1 f2 show ?thesis
        by (intro exI [of _ "[]"]) (simp add: lines_bytes_def)
    next
      case line
      show ?thesis
      proof (cases "json_loads s1 line")
        case None
        with line "1.prems" unf have "r = Inl ValueError" "s' = s2" by simp_all
        with line None f1 f2 show ?thesis
          by (intro exI [of _ "[line]"]) (simp add: lines_bytes_def)
      next
        case (Some obj)
        with line have x2: "x2 = Inr obj" by simp
        show ?thesis
        proof (cases "py_in ''return'' obj")
          case (Inl e)
          with x2 "1.prems" unf have "r = Inl e" "s' = s2" by simp_all
          with line Some Inl f1 f2 show ?thesis
            by (intro exI [of _ "[line]"]) (simp add: lines_bytes_def)
        next
          case (Inr b)
          show ?thesis
          proof (cases b)
            case True
            with Inr x2 "1.prems" unf have "r = py_getitem obj ''return''" "s' = s2"
              by (simp_all split: sum.splits)
            with line Some Inr True f1 f2 show ?thesis
              by (intro exI [of _ "[line]"]) (simp add: lines_bytes_def)
          next
            case False
            let ?s3 = "s2\<lparr>notifications := notifications s2 @ [obj]\<rparr>"
            from Inr False x2 "1.prems" unf have rec: "call_loop t ft ?s3 = (r, s')" by simp
            from f2 have c3: "conn t k ?s3" by (simp add: conn_def)
            from "1.IH" [OF tl [symmetric] \<open>x1 = Some time_left\<close> rj [symmetric] x2 Inr _ rec c3]
              False
            obtain ls where ls: "stream t ?s3 = lines_bytes ls @ stream t s'"
              "\<forall>l \<in> set ls. newline \<notin> set l"
              "notifications s' = notifications ?s3 @ fst (first_response (json_loads ?s3) ls)"
              "(case snd (first_response (json_loads ?s3) ls) of
                  Some res \<Rightarrow> r = res \<and>
                    length ls = Suc (length (fst (first_response (json_loads ?s3) ls)))
                | None \<Rightarrow> (\<exists>e. r = Inl e) \<or> (r = Inr JNull \<and> ft \<noteq> None))"
              by auto
            have st: "stream t ?s3 = stream t s2" by (simp add: stream_def buffered_def)
            from ls st line Some Inr False f1 f2 show ?thesis
              by (intro exI [of _ "line # ls"])
                 (auto simp: lines_bytes_def split: prod.splits option.splits)
          qed
        qed
      qed
    qed
  qed
qed

text \<open>Fetching the connection, whether the thread has one or gets one now, leaves the
  bytes it has still to read as they are.\<close>

lemma buffered_close_one: "buffered t (close_one t t s) = []"
  by (simp add: buffered_def close_one_def sock_close_def Let_def delete_conv split: option.splits)

lemma get_connection_stream:
  assumes "get_connection t timeout s = (x, s1)"
  shows "stream t s1 = stream t s \<and> (\<forall>k. x = Inr (Some k) \<longrightarrow> conn t k s1)"
proof (cases "dead s")
  case True
  with assms show ?thesis by (auto simp: get_connection_dead)
next
  case nd: False
  show ?thesis
  proof (cases "map_of (socks s) t")
    case (Some k)
    with nd assms show ?thesis
      by (auto simp: get_connection_present conn_def split: sum.splits)
  next
    case None
    define k where "k = next_sock s"
    define s2 where "s2 = s\<lparr>next_sock := Suc k, socks := socks s @ [(t, k)],
                      local_buffer := (local_buffer s)(t \<mapsto> []),
                      local_sock := (local_sock s)(t \<mapsto> Some k)\<rparr>"
    have p: "\<not> dead s2" "map_of (socks s2) t = Some k"
      using nd None by (simp_all add: s2_def map_add_Some_iff)
    have b2: "buffered t s2 = []" using p by (simp add: buffered_def s2_def)
    have b0: "buffered t s = []" using None by (simp add: buffered_def)
    have r2: "recvs s2 = recvs s" by (simp add: s2_def)
    obtain y s3 where sc: "sock_connect k s2 = (y, s3)" by (cases "sock_connect k s2")
    note f3 = sock_connect_frame [OF sc]
    from f3 have "buffered t s3 = buffered t s2" by (simp add: buffered_def)
    with b2 have b3: "buffered t s3 = []" by simp
    have st: "stream t s2 = stream t s" "stream t s3 = stream t s"
      "stream t (close_one t t s2) = stream t s" "stream t (close_one t t s3) = stream t s"
      using b0 b2 b3 r2 f3 by (simp_all add: stream_def buffered_close_one close_one_frame)
    from f3 p have c3: "conn t k s3" by (simp add: conn_def)
    obtain r3 s3' where cs: "connect_sock t timeout s2 = (r3, s3')"
      by (cases "connect_sock t timeout s2")
    from cs sc st c3 have "stream t s3' = stream t s \<and> (r3 = Inr () \<longrightarrow> s3' = s3)"
      by (auto simp: connect_sock_present [OF p] split: sum.splits if_splits)
    with assms nd None cs c3 show ?thesis
      by (auto simp: get_connection_absent Let_def k_def [symmetric] s2_def [symmetric]
               split: sum.splits)
  qed
qed

lemma send_json_stream:
  assumes "send_json t obj timeout s = (x, s1)"
  shows "stream t s1 = stream t s \<and> json_loads s1 = json_loads s \<and>
         notifications s1 = notifications s \<and> (x = Inr () \<longrightarrow> (\<exists>k. conn t k s1))"
proof -
  obtain y s0 where g: "get_connection t timeout s = (y, s0)"
    by (cases "get_connection t timeout s")
  note g1 = get_connection_stream [OF g] get_connection_frame [OF g]
  show ?thesis
  proof (cases y)
    case (Inl e)
    with assms g g1 show ?thesis by (auto simp: send_json_def)
  next
    case (Inr so)
    show ?thesis
    proof (cases so)
      case None
      with assms g g1 Inr show ?thesis by (auto simp: send_json_def)
    next
      case (Some k)
      obtain z s2 where ss: "sock_send k (json_dumps s0 obj @ [newline]) s0 = (z, s2)"
        by (cases "sock_send k (json_dumps s0 obj @ [newline]) s0")
      from assms g Inr Some ss have e: "s1 = s2"
        by (auto simp: send_json_def Let_def split: sum.splits if_splits)
      from g1 Inr Some have c0: "conn t k s0" by simp
      from sock_send_keeps [OF ss] c0 have "conn t k s2" "stream t s2 = stream t s0"
        by (simp_all add: conn_def stream_def buffered_def)
      with e g1 sock_send_keeps [OF ss] show ?thesis by auto
    qed
  qed
qed

lemma call_lines:
  assumes "call t name args kwargs timeout s = (r, s')"
  shows "\<exists>ls. stream t s = lines_bytes ls @ stream t s' \<and> (\<forall>l \<in> set ls. newline \<notin> set l) \<and>
      notifications s' = notifications s @ fst (first_response (json_loads s) ls) \<and>
      (case snd (first_response (json_loads s) ls) of
         Some res \<Rightarrow> r = res \<and> length ls = Suc (length (fst (first_response (json_loads s) ls)))
       | None \<Rightarrow> (\<exists>e. r = Inl e) \<or> (r = Inr JNull \<and> timeout \<noteq> None))"
proof -
  define start where "start = (case timeout of
              None \<Rightarrow> (None, s)
            | Some tm \<Rightarrow> (case time_time s of (n, s0) \<Rightarrow> (Some (n + tm), s0)))"
  obtain ft s0 where st: "start = (ft, s0)" by (cases start)
  have f0: "stream t s0 = stream t s \<and> json_loads s0 = json_loads s \<and>
            notifications s0 = notifications s \<and> (ft \<noteq> None \<longrightarrow> timeout \<noteq> None)"
  proof (cases timeout)
    case None
    with st show ?thesis by (simp add: start_def)
  next
    case (Some tm)
    obtain n s0' where tt: "time_time s = (n, s0')" by (cases "time_time s")
    with st Some have "s0 = s0'" by (simp add: start_def)
    with time_time_frame [OF tt] Some show ?thesis
      by (simp add: stream_def buffered_def)
  qed
  define command where "command = JObj [(''command'', JStr name), (''args'', JList args),
                              (''kwargs'', JObj kwargs)]"
  obtain x s1 where sj: "send_json t command timeout s0 = (x, s1)"
    by (cases "send_json t command timeout s0")
  note f1 = send_json_stream [OF sj]
  show ?thesis
  proof (cases x)
    case (Inl e)
    with assms st sj have "r = Inl e" "s' = s1"
      by (simp_all add: call_def start_def [symmetric] command_def [symmetric])
    with f0 f1 show ?thesis
      by (intro exI [of _ "[]"]) (simp add: lines_bytes_def)
  next
    case (Inr u)
    with assms st sj have cl: "call_loop t ft s1 = (r, s')"
      by (simp add: call_def start_def [symmetric] command_def [symmetric])
    from f1 Inr obtain k where c1: "conn t k s1" by auto
    from call_loop_lines [OF cl c1] f0 f1 show ?thesis
      by (auto split: option.splits)
  qed
qed

lemma first_response_sound:
  "(\<forall>n \<in> set (fst (first_response loads ls)). py_in ''return'' n = Inr False) \<and>
   (\<forall>res. snd (first_response loads ls) = Some res \<and>
          length ls = Suc (length (fst (first_response loads ls))) \<longrightarrow>
      (\<forall>v. res = Inr v \<longrightarrow>
         (\<exists>obj. loads (last ls) = Some obj \<and> py_in ''return'' obj = Inr True \<and>
                py_getitem obj ''return'' = Inr v)))"
proof (induction ls)
  case Nil
  show ?case by simp
next
  case (Cons l ls)
  show ?case
  proof (cases "loads l")
    case None
    then show ?thesis by simp
  next
    case (Some obj)
    show ?thesis
    proof (cases "py_in ''return'' obj")
      case (Inl e)
      with Some show ?thesis by simp
    next
      case (Inr b)
      show ?thesis
      proof (cases b)
        case True
        with Some Inr show ?thesis by simp
      next
        case False
        with Some Inr Cons.IH show ?thesis
          by (cases ls) (auto split: prod.splits)
      qed
    qed
  qed
qed

text \<open>The forward direction: lines that arrive are read, one per receive.\<close>

lemma first_newline_unique:
  "newline \<notin> set l1 \<Longrightarrow> newline \<notin> set l2 \<Longrightarrow> l1 @ newline # r1 = l2 @ newline # r2 \<Longrightarrow>
   l1 = l2 \<and> r1 = r2"
proof (induction l1 arbitrary: l2)
  case Nil
  then show ?case by (cases l2) auto
next
  case (Cons a l1)
  then show ?case by (cases l2) auto
qed

lemma first_newline_split:
  assumes "b @ xs = line @ newline # rest" "newline \<notin> set line" "newline \<in> set b"
  shows "\<exists>rest0. b = line @ newline # rest0 \<and> rest = rest0 @ xs"
proof -
  from assms(3) obtain l1 r1 where b: "b = l1 @ newline # r1" "newline \<notin> set l1"
    by (metis split_list_first)
  with assms(1) have "l1 @ newline # (r1 @ xs) = line @ newline # rest" by simp
  from first_newline_unique [OF b(2) assms(2) this]
  have "l1 = line \<and> r1 @ xs = rest" .
  with b(1) show ?thesis by auto
qed

lemma recv_line_arriving:
  assumes "local_buffer s t = Some b" "k \<notin> set (closed_socks s)"
    and "b @ concat (map chunk_bytes (takeWhile good_chunk (recvs s))) = line @ newline # rest"
    and "newline \<notin> set line"
  shows "\<exists>m b'. recv_line t (Some k) s =
             (decode_line s line,
              s\<lparr>recvs := drop m (recvs s), local_buffer := (local_buffer s)(t \<mapsto> b')\<rparr>) \<and>
           b' @ concat (map chunk_bytes (takeWhile good_chunk (drop m (recvs s)))) = rest"
  using assms
proof (induction "recvs s" arbitrary: s b)
  case Nil
  then have "b = line @ newline # rest" by simp
  with Nil.prems recv_line_buffered [of s t line rest "Some k"] Nil.hyps [symmetric]
  have "recv_line t (Some k) s =
             (decode_line s line,
              s\<lparr>recvs := drop 0 (recvs s), local_buffer := (local_buffer s)(t \<mapsto> rest)\<rparr>) \<and>
           rest @ concat (map chunk_bytes (takeWhile good_chunk (drop 0 (recvs s)))) = rest"
    by simp
  then show ?case by blast
next
  case (Cons r es)
  note rs = Cons.hyps(2) [symmetric]
  show ?case
  proof (cases "newline \<in> set b")
    case True
    from first_newline_split [OF Cons.prems(3) Cons.prems(4) True]
    obtain rest0 where b: "b = line @ newline # rest0"
      and r: "rest = rest0 @ concat (map chunk_bytes (takeWhile good_chunk (recvs s)))"
      by blast
    from Cons.prems(1) b Cons.prems(4) recv_line_buffered [of s t line rest0 "Some k"]
    have "recv_line t (Some k) s =
             (decode_line s line,
              s\<lparr>recvs := drop 0 (recvs s), local_buffer := (local_buffer s)(t \<mapsto> rest0)\<rparr>)"
      by simp
    with r show ?thesis by (metis drop0)
  next
    case False
    have "newline \<in> set (b @ concat (map chunk_bytes (takeWhile good_chunk (recvs s))))"
      unfolding Cons.prems(3) by simp
    with False have "takeWhile good_chunk (recvs s) \<noteq> []" by auto
    with rs have g: "good_chunk r" by (auto split: if_splits)
    then obtain d where d: "r = RecvData d" "d \<noteq> []"
      by (cases r) (simp_all add: good_chunk_def)
    let ?s2 = "s\<lparr>recvs := es, local_buffer := (local_buffer s)(t \<mapsto> b @ d)\<rparr>"
    from Cons.prems(1,2) False rs d
    have e: "recv_line t (Some k) s = recv_line t (Some k) ?s2"
      by (intro recv_line_read) simp_all
    have "(b @ d) @ concat (map chunk_bytes (takeWhile good_chunk (recvs ?s2))) =
          line @ newline # rest"
      using Cons.prems(3) rs g d by (simp add: chunk_bytes_def)
    from Cons.hyps(1) [of ?s2 "b @ d", OF _ _ _ this Cons.prems(4)] Cons.prems(2)
    obtain m b' where
      m: "recv_line t (Some k) ?s2 =
             (decode_line ?s2 line,
              ?s2\<lparr>recvs := drop m (recvs ?s2), local_buffer := (local_buffer ?s2)(t \<mapsto> b')\<rparr>)"
      and r: "b' @ concat (map chunk_bytes (takeWhile good_chunk (drop m (recvs ?s2)))) = rest"
      by auto
    have "?s2\<lparr>recvs := drop m (recvs ?s2), local_buffer := (local_buffer ?s2)(t \<mapsto> b')\<rparr> =
          s\<lparr>recvs := drop (Suc m) (recvs s), local_buffer := (local_buffer s)(t \<mapsto> b')\<rparr>"
      using rs by simp
    with e m r rs have "recv_line t (Some k) s =
             (decode_line s line,
              s\<lparr>recvs := drop (Suc m) (recvs s), local_buffer := (local_buffer s)(t \<mapsto> b')\<rparr>) \<and>
           b' @ concat (map chunk_bytes (takeWhile good_chunk (drop (Suc m) (recvs s)))) = rest"
      by simp
    then show ?thesis by blast
  qed
qed

text \<open>A thread that can read: it has an open socket in the table of a client that is
  not dead, and a buffer.\<close>

definition reading :: "thread \<Rightarrow> sock \<Rightarrow> pc \<Rightarrow> bool" where
  "reading t k s = (conn t k s \<and> k \<notin> set (closed_socks s) \<and> local_buffer s t \<noteq> None)"

lemma recv_json_arriving:
  assumes "reading t k s" "case tleft of None \<Rightarrow> True | Some x \<Rightarrow> 0 \<le> x"
    and "arriving t s = line @ newline # rest" "newline \<notin> set line"
  shows "\<exists>s'. recv_json t tleft s = (decode_line s line, s') \<and> reading t k s' \<and>
           arriving t s' = rest \<and> notifications s' = notifications s \<and>
           json_loads s' = json_loads s \<and> now s' = now s \<and> ticks s' = ticks s"
proof -
  from assms(1) obtain b where b: "local_buffer s t = Some b"
    and k: "k \<notin> set (closed_socks s)" and c: "conn t k s"
    by (auto simp: reading_def)
  from c k assms(2) have l: "live t k tleft s"
    by (auto simp: live_def conn_def sock_settimeout_def split: option.splits)
  from b c assms(3)
  have a: "b @ concat (map chunk_bytes (takeWhile good_chunk (recvs s))) = line @ newline # rest"
    by (simp add: arriving_def buffered_def conn_def)
  from recv_line_arriving [OF b k a assms(4)] obtain m b' where
    r: "recv_line t (Some k) s =
             (decode_line s line,
              s\<lparr>recvs := drop m (recvs s), local_buffer := (local_buffer s)(t \<mapsto> b')\<rparr>)"
    and a': "b' @ concat (map chunk_bytes (takeWhile good_chunk (drop m (recvs s)))) = rest"
    by blast
  let ?s' = "s\<lparr>recvs := drop m (recvs s), local_buffer := (local_buffer s)(t \<mapsto> b')\<rparr>"
  from c k have "reading t k ?s'" by (simp add: reading_def conn_def)
  moreover from c a' have "arriving t ?s' = rest"
    by (simp add: arriving_def buffered_def conn_def)
  ultimately show ?thesis using r recv_json_live [OF l] by simp
qed

lemma time_time_before:
  assumes "stays_before f (now s) (ticks s)"
  shows "\<exists>n. time_time s = (n, s\<lparr>now := n, ticks := drop 1 (ticks s)\<rparr>) \<and> n < f \<and>
             stays_before f n (drop 1 (ticks s))"
proof (cases "ticks s")
  case Nil
  with assms show ?thesis by (simp add: time_time_def)
next
  case (Cons d ds)
  with assms show ?thesis by (simp add: time_time_def)
qed

lemma call_time_left_open:
  assumes "open_until ft s"
  shows "\<exists>tleft n ds. call_time_left ft s = (Some tleft, s\<lparr>now := n, ticks := ds\<rparr>) \<and>
           (case tleft of None \<Rightarrow> True | Some x \<Rightarrow> 0 \<le> x) \<and>
           open_until ft (s\<lparr>now := n, ticks := ds\<rparr>)"
proof (cases ft)
  case None
  have "s\<lparr>now := now s, ticks := ticks s\<rparr> = s" by simp
  with None have "call_time_left ft s = (Some None, s\<lparr>now := now s, ticks := ticks s\<rparr>) \<and>
           (case None :: real option of None \<Rightarrow> True | Some x \<Rightarrow> 0 \<le> x) \<and>
           open_until ft (s\<lparr>now := now s, ticks := ticks s\<rparr>)"
    by (simp add: call_time_left_def open_until_def)
  then show ?thesis by blast
next
  case (Some f)
  with assms have sb: "stays_before f (now s) (ticks s)" by (simp add: open_until_def)
  from time_time_before [OF sb] obtain n1 where
    t1: "time_time s = (n1, s\<lparr>now := n1, ticks := drop 1 (ticks s)\<rparr>)" "n1 < f"
      "stays_before f n1 (drop 1 (ticks s))"
    by blast
  let ?s1 = "s\<lparr>now := n1, ticks := drop 1 (ticks s)\<rparr>"
  from t1(3) have "stays_before f (now ?s1) (ticks ?s1)" by simp
  from time_time_before [OF this] obtain n2 where
    t2: "time_time ?s1 = (n2, ?s1\<lparr>now := n2, ticks := drop 1 (ticks ?s1)\<rparr>)" "n2 < f"
      "stays_before f n2 (drop 1 (ticks ?s1))"
    by blast
  let ?s2 = "s\<lparr>now := n2, ticks := drop 1 (drop 1 (ticks s))\<rparr>"
  from t2 have e: "time_time ?s1 = (n2, ?s2)" by simp
  from Some t1 e t2
  have "call_time_left ft s = (Some (Some (max (f - n2) 0)), ?s2) \<and>
           (case Some (max (f - n2) 0) of None \<Rightarrow> True | Some x \<Rightarrow> 0 \<le> x) \<and>
           open_until ft ?s2"
    by (simp add: call_time_left_def open_until_def)
  then show ?thesis by blast
qed

lemma reading_clock [simp]: "reading t k (s\<lparr>now := n, ticks := ds\<rparr>) = reading t k s"
  by (simp add: reading_def conn_def)

lemma arriving_clock [simp]: "arriving t (s\<lparr>now := n, ticks := ds\<rparr>) = arriving t s"
  by (simp add: arriving_def buffered_def)

lemma reading_notifications [simp]: "reading t k (s\<lparr>notifications := ns\<rparr>) = reading t k s"
  by (simp add: reading_def conn_def)

lemma arriving_notifications [simp]: "arriving t (s\<lparr>notifications := ns\<rparr>) = arriving t s"
  by (simp add: arriving_def buffered_def)

lemma ready_to_call_clock [simp]:
  "ready_to_call t timeout (s\<lparr>now := n, ticks := ds\<rparr>) = ready_to_call t timeout s"
  by (simp add: ready_to_call_def cong: option.case_cong list.case_cong)

lemma call_loop_arriving:
  assumes "reading t k s" "open_until ft s"
    and "arriving t s = lines_bytes ls @ rest" "\<forall>l \<in> set ls. newline \<notin> set l"
    and "first_response (json_loads s) ls = (ns, Some res)" "length ls = Suc (length ns)"
  shows "\<exists>s'. call_loop t ft s = (res, s') \<and> notifications s' = notifications s @ ns \<and>
           arriving t s' = rest"
  using assms
proof (induction ls arbitrary: s ns)
  case Nil
  then show ?case by simp
next
  case (Cons l ls)
  from call_time_left_open [OF Cons.prems(2)] obtain tleft n ds where
    tleft: "call_time_left ft s = (Some tleft, s\<lparr>now := n, ticks := ds\<rparr>)"
      "case tleft of None \<Rightarrow> True | Some x \<Rightarrow> 0 \<le> x"
      "open_until ft (s\<lparr>now := n, ticks := ds\<rparr>)"
    by blast
  let ?s1 = "s\<lparr>now := n, ticks := ds\<rparr>"
  from Cons.prems(1) have r1: "reading t k ?s1" by simp
  from Cons.prems(3) have a1: "arriving t ?s1 = l @ newline # (lines_bytes ls @ rest)"
    by (simp add: lines_bytes_def)
  from Cons.prems(4) have nl: "newline \<notin> set l" by simp
  from recv_json_arriving [OF r1 tleft(2) a1 nl] obtain s2 where
    rj: "recv_json t tleft ?s1 = (decode_line ?s1 l, s2)" and r2: "reading t k s2"
    and a2: "arriving t s2 = lines_bytes ls @ rest"
    and f2: "notifications s2 = notifications s" "json_loads s2 = json_loads s"
      "now s2 = n" "ticks s2 = ds"
    by auto
  have o2: "open_until ft s2" using tleft(3) f2 by (simp add: open_until_def split: option.splits)
  have dl: "decode_line ?s1 l =
              (case json_loads s l of None \<Rightarrow> Inl ValueError | Some obj \<Rightarrow> Inr obj)"
    by (simp add: decode_line_def)
  have unf: "call_loop t ft s =
      (case decode_line ?s1 l of Inl e \<Rightarrow> (Inl e, s2)
       | Inr obj \<Rightarrow>
          (case py_in ''return'' obj of
             Inl e \<Rightarrow> (Inl e, s2)
           | Inr True \<Rightarrow>
               (case py_getitem obj ''return'' of Inl e \<Rightarrow> (Inl e, s2) | Inr v \<Rightarrow> (Inr v, s2))
           | Inr False \<Rightarrow> call_loop t ft (s2\<lparr>notifications := notifications s2 @ [obj]\<rparr>)))"
    using tleft(1) rj by (subst call_loop.simps) simp
  show ?case
  proof (cases "json_loads s l")
    case None
    with Cons.prems(5,6) have "res = Inl ValueError" "ns = []" "ls = []" by simp_all
    with unf dl None f2 a2 show ?thesis by (simp add: lines_bytes_def)
  next
    case (Some obj)
    show ?thesis
    proof (cases "py_in ''return'' obj")
      case (Inl e)
      with Some Cons.prems(5,6) have "res = Inl e" "ns = []" "ls = []" by simp_all
      with unf dl Some Inl f2 a2 show ?thesis by (simp add: lines_bytes_def)
    next
      case (Inr b)
      show ?thesis
      proof (cases b)
        case True
        with Some Inr Cons.prems(5,6) have "res = py_getitem obj ''return''" "ns = []" "ls = []"
          by simp_all
        with unf dl Some Inr True f2 a2 show ?thesis
          by (cases "py_getitem obj ''return''") (simp_all add: lines_bytes_def)
      next
        case False
        with Some Inr Cons.prems(5,6) obtain ns' where
          ns: "ns = obj # ns'" "first_response (json_loads s) ls = (ns', Some res)"
            "length ls = Suc (length ns')"
          by (auto split: prod.splits)
        let ?s3 = "s2\<lparr>notifications := notifications s2 @ [obj]\<rparr>"
        from r2 have r3: "reading t k ?s3" by simp
        from o2 have o3: "open_until ft ?s3" by (simp add: open_until_def split: option.splits)
        from a2 have a3: "arriving t ?s3 = lines_bytes ls @ rest" by simp
        from Cons.prems(4) have nls: "\<forall>l \<in> set ls. newline \<notin> set l" by simp
        from ns(2) f2 have fr: "first_response (json_loads ?s3) ls = (ns', Some res)" by simp
        from Cons.IH [OF r3 o3 a3 nls fr ns(3)] obtain s' where
          "call_loop t ft ?s3 = (res, s')" "notifications s' = notifications ?s3 @ ns'"
          "arriving t s' = rest"
          by blast
        with unf dl Some Inr False f2 ns(1) show ?thesis by simp
      qed
    qed
  qed
qed

lemma send_json_ready:
  assumes "ready_to_call t timeout s"
  shows "\<exists>k s1. send_json t obj timeout s = (Inr (), s1) \<and> reading t k s1 \<and>
           arriving t s1 = arriving t s \<and> notifications s1 = notifications s \<and>
           json_loads s1 = json_loads s \<and> now s1 = now s \<and> ticks s1 = ticks s"
proof -
  from assms have nd: "\<not> dead s" and tm: "case timeout of None \<Rightarrow> True | Some x \<Rightarrow> 0 \<le> x"
    and sd: "case sends s of [] \<Rightarrow> True | out # outs \<Rightarrow> out = SendAll"
    by (simp_all add: ready_to_call_def)
  have sent: "\<exists>s1. send_json t obj timeout s0 = (Inr (), s1) \<and> reading t k s1 \<and>
           arriving t s1 = arriving t s0 \<and> notifications s1 = notifications s0 \<and>
           json_loads s1 = json_loads s0 \<and> now s1 = now s0 \<and> ticks s1 = ticks s0"
    if g: "get_connection t timeout s0 = (Inr (Some k), s0)" and r: "reading t k s0"
      and sd0: "sends s0 = sends s" for k s0
  proof -
    from r have k: "k \<notin> set (closed_socks s0)" by (simp add: reading_def)
    let ?data = "json_dumps s0 obj @ [newline]"
    obtain outs where "sock_send k ?data s0 =
        (Inr (length ?data), s0\<lparr>sends := outs, sent := sent s0 @ [(k, ?data)]\<rparr>)"
    proof (cases "sends s")
      case Nil
      have "s0\<lparr>sends := [], sent := sent s0 @ [(k, ?data)]\<rparr> =
            s0\<lparr>sent := sent s0 @ [(k, ?data)]\<rparr>"
        using Nil sd0 by simp
      with Nil k sd0 that [of "[]"] show ?thesis by (simp add: sock_send_def)
    next
      case (Cons out outs)
      with sd k sd0 that [of outs] show ?thesis by (simp add: sock_send_def)
    qed
    with g r show ?thesis
      by (simp add: send_json_def Let_def reading_def conn_def arriving_def buffered_def)
  qed
  show ?thesis
  proof (cases "map_of (socks s) t")
    case (Some k)
    with assms have k: "k \<notin> set (closed_socks s)" "local_buffer s t \<noteq> None"
      by (simp_all add: ready_to_call_def)
    with nd Some have r: "reading t k s" by (simp add: reading_def conn_def)
    from nd Some k tm have "get_connection t timeout s = (Inr (Some k), s)"
      by (auto simp: get_connection_present sock_settimeout_def split: option.splits)
    from sent [OF this r] show ?thesis by blast
  next
    case None
    define k where "k = next_sock s"
    with assms None have k: "k \<notin> set (closed_socks s)"
      and cn: "case connects s of [] \<Rightarrow> True | ok # oks \<Rightarrow> ok"
      by (simp_all add: ready_to_call_def)
    define s2 where "s2 = s\<lparr>next_sock := Suc k, socks := socks s @ [(t, k)],
                      local_buffer := (local_buffer s)(t \<mapsto> []),
                      local_sock := (local_sock s)(t \<mapsto> Some k)\<rparr>"
    have p: "\<not> dead s2" "map_of (socks s2) t = Some k"
      using nd None by (simp_all add: s2_def map_add_Some_iff)
    have "closed_socks s2 = closed_socks s" by (simp add: s2_def)
    with k tm have to: "sock_settimeout k timeout s2 = Inr ()"
      by (cases timeout) (simp_all add: sock_settimeout_def)
    obtain cs where sc: "sock_connect k s2 = (Inr (), s2\<lparr>connects := cs\<rparr>)"
    proof (cases "connects s")
      case Nil
      then have "s2\<lparr>connects := []\<rparr> = s2" by (simp add: s2_def)
      with Nil k that [of "[]"] show ?thesis by (simp add: sock_connect_def s2_def)
    next
      case (Cons ok oks)
      with cn k that [of oks] show ?thesis by (simp add: sock_connect_def s2_def)
    qed
    let ?s3 = "s2\<lparr>connects := cs\<rparr>"
    from p to sc have c: "connect_sock t timeout s2 = (Inr (), ?s3)"
      by (simp add: connect_sock_present)
    have "sock_settimeout k timeout ?s3 = sock_settimeout k timeout s2"
      by (simp add: sock_settimeout_def)
    with to have to3: "sock_settimeout k timeout ?s3 = Inr ()" by simp
    from nd None c to3 have g: "get_connection t timeout s = (Inr (Some k), ?s3)"
      by (simp add: get_connection_absent Let_def k_def [symmetric] s2_def [symmetric])
    from p to3 have g3: "get_connection t timeout ?s3 = (Inr (Some k), ?s3)"
      by (simp add: get_connection_present)
    from p k have r3: "reading t k ?s3" by (simp add: reading_def conn_def s2_def)
    have s3: "sends ?s3 = sends s" by (simp add: s2_def)
    from sent [OF g3 r3 s3] obtain s1 where
      s1: "send_json t obj timeout ?s3 = (Inr (), s1)" "reading t k s1"
        "arriving t s1 = arriving t ?s3" "notifications s1 = notifications ?s3"
        "json_loads s1 = json_loads ?s3" "now s1 = now ?s3" "ticks s1 = ticks ?s3"
      by blast
    from g g3 s1(1) have "send_json t obj timeout s = (Inr (), s1)"
      by (simp add: send_json_def)
    moreover have "arriving t ?s3 = arriving t s"
      using None p by (simp add: arriving_def buffered_def s2_def)
    ultimately show ?thesis using s1 by (auto simp: s2_def)
  qed
qed

lemma call_arriving:
  assumes "ready_to_call t timeout s" "in_time timeout s"
    and "arriving t s = lines_bytes ls @ rest" "\<forall>l \<in> set ls. newline \<notin> set l"
    and "first_response (json_loads s) ls = (ns, Some res)" "length ls = Suc (length ns)"
  shows "\<exists>s'. call t name args kwargs timeout s = (res, s') \<and>
           notifications s' = notifications s @ ns \<and> arriving t s' = rest"
proof -
  define start where "start = (case timeout of
              None \<Rightarrow> (None, s)
            | Some tm \<Rightarrow> (case time_time s of (n, s0) \<Rightarrow> (Some (n + tm), s0)))"
  obtain ft s0 where st: "start = (ft, s0)" by (cases start)
  have f0: "\<exists>n ds. s0 = s\<lparr>now := n, ticks := ds\<rparr>" and o0: "open_until ft s0"
  proof -
    show "\<exists>n ds. s0 = s\<lparr>now := n, ticks := ds\<rparr>"
    proof (cases timeout)
      case None
      with st have "s0 = s\<lparr>now := now s, ticks := ticks s\<rparr>" by (simp add: start_def)
      then show ?thesis by blast
    next
      case (Some tm)
      have "\<exists>n. time_time s = (n, s\<lparr>now := n, ticks := drop 1 (ticks s)\<rparr>)"
        by (cases "ticks s") (simp_all add: time_time_def)
      then obtain n where "time_time s = (n, s\<lparr>now := n, ticks := drop 1 (ticks s)\<rparr>)" ..
      with st Some have "s0 = s\<lparr>now := n, ticks := drop 1 (ticks s)\<rparr>"
        by (simp add: start_def)
      then show ?thesis by blast
    qed
    from assms(2) st show "open_until ft s0"
      by (auto simp: in_time_def start_def open_until_def split: option.splits prod.splits)
  qed
  from f0 obtain n ds where s0: "s0 = s\<lparr>now := n, ticks := ds\<rparr>" by blast
  from assms(1) have r0: "ready_to_call t timeout s0" by (simp add: s0)
  define command where "command = JObj [(''command'', JStr name), (''args'', JList args),
                              (''kwargs'', JObj kwargs)]"
  from send_json_ready [OF r0, of command] obtain k s1 where
    sj: "send_json t command timeout s0 = (Inr (), s1)" and r1: "reading t k s1"
    and f1: "arriving t s1 = arriving t s0" "notifications s1 = notifications s0"
      "json_loads s1 = json_loads s0" "now s1 = now s0" "ticks s1 = ticks s0"
    by blast
  from o0 f1 have o1: "open_until ft s1" by (simp add: open_until_def split: option.splits)
  from assms(3) f1 have a1: "arriving t s1 = lines_bytes ls @ rest" by (simp add: s0)
  from assms(5) f1 have fr: "first_response (json_loads s1) ls = (ns, Some res)"
    by (simp add: s0)
  from call_loop_arriving [OF r1 o1 a1 assms(4) fr assms(6)] obtain s' where
    "call_loop t ft s1 = (res, s')" "notifications s' = notifications s1 @ ns"
    "arriving t s' = rest"
    by blast
  with st sj f1 show ?thesis
    by (simp add: call_def start_def [symmetric] command_def [symmetric] s0)
qed

lemma first_response_lines:
  assumes "map loads nls = map Some ns" "\<forall>n \<in> set ns. py_in ''return'' n = Inr False"
    and "loads l = Some obj" "py_in ''return'' obj = Inr True"
  shows "first_response loads (nls @ [l]) = (ns, Some (py_getitem obj ''return''))"
  using assms(1,2)
proof (induction nls arbitrary: ns)
  case Nil
  with assms(3,4) show ?case by simp
next
  case (Cons a nls)
  then obtain n ns' where ns: "ns = n # ns'" by (cases ns) auto
  with Cons.prems have "loads a = Some n" "map loads nls = map Some ns'"
    "py_in ''return'' n = Inr False" "\<forall>n \<in> set ns'. py_in ''return'' n = Inr False"
    by simp_all
  with Cons.IH [of ns'] ns show ?case by simp
qed

text \<open>The example client after thread 0 has fetched its connection.\<close>

definition connected_client :: "real list \<Rightarrow> recv_outcome list \<Rightarrow> pc" where
  "connected_client tks rcs = snd (get_connection 0 None (example_client tks rcs))"

lemma connected_client_eq:
  "connected_client tks rcs =
     \<lparr>socks = [(0, 0)], local_sock = [0 \<mapsto> Some 0], local_buffer = [0 \<mapsto> []],
      notifications = [], dead = False, json_loads = example_loads,
      json_dumps = example_dumps, JobState = example_JobState, now = 0,
      ticks = tks, connects = [], sends = [], recvs = rcs, next_sock = Suc 0,
      closed_socks = [], sent = [], warnings = [], polled = []\<rparr>"
  by (simp add: connected_client_def example_client_def new_client_def
        get_connection_absent get_connection_present connect_sock_present
        sock_settimeout_def sock_connect_def Let_def)

text \<open>
  C1. Whatever state a \<^verbatim>\<open>call\<close> starts in, it consumes whole lines \<open>ls\<close> of the
  stream. The lines before the first one that has \<^verbatim>\<open>"return"\<close> are appended to the
  notification queue, in order, and none of them has \<^verbatim>\<open>"return"\<close>; when a line decides
  the result it is the last line consumed, and a value \<open>v\<close> that is returned is the
  value under \<^verbatim>\<open>"return"\<close> of that line. When no line decides it, the call ends with
  an exception, or, under a finite timeout, with \<^verbatim>\<open>None\<close>.

  Conversely, when the call can go through (the thread is connected or connects now)
  and the clock stays below the deadline, and the lines \<open>nls\<close> without \<^verbatim>\<open>"return"\<close>
  followed by a line \<open>l\<close> with \<^verbatim>\<open>"return"\<close> arrive, the call returns the value under
  \<^verbatim>\<open>"return"\<close> of \<open>l\<close>, has appended the decoded lines \<open>nls\<close> to the queue, and has left
  what arrived after \<open>l\<close> unread.
\<close>

theorem call_returns_first_response:
  "(call t name args kwargs timeout s = (r, s') \<longrightarrow>
      (\<exists>ls. stream t s = lines_bytes ls @ stream t s' \<and> (\<forall>l \<in> set ls. newline \<notin> set l) \<and>
         notifications s' = notifications s @ fst (first_response (json_loads s) ls) \<and>
         (\<forall>n \<in> set (fst (first_response (json_loads s) ls)). py_in ''return'' n = Inr False) \<and>
         (case snd (first_response (json_loads s) ls) of
            Some res \<Rightarrow>
              r = res \<and> length ls = Suc (length (fst (first_response (json_loads s) ls))) \<and>
              (\<forall>v. res = Inr v \<longrightarrow>
                 (\<exists>obj. json_loads s (last ls) = Some obj \<and> py_in ''return'' obj = Inr True \<and>
                        py_getitem obj ''return'' = Inr v))
          | None \<Rightarrow> (\<exists>e. r = Inl e) \<or> (r = Inr JNull \<and> timeout \<noteq> None)))) \<and>
   (ready_to_call t timeout s \<and> in_time timeout s \<and>
    arriving t s = lines_bytes (nls @ [l]) @ rest \<and> (\<forall>x \<in> set (nls @ [l]). newline \<notin> set x) \<and>
    map (json_loads s) nls = map Some ns \<and> (\<forall>n \<in> set ns. py_in ''return'' n = Inr False) \<and>
    json_loads s l = Some obj \<and> py_in ''return'' obj = Inr True \<longrightarrow>
      fst (call t name args kwargs timeout s) = py_getitem obj ''return'' \<and>
      notifications (snd (call t name args kwargs timeout s)) = notifications s @ ns \<and>
      arriving t (snd (call t name args kwargs timeout s)) = rest)"
proof (rule conjI; rule impI)
  assume "call t name args kwargs timeout s = (r, s')"
  from call_lines [OF this] obtain ls where
    ls: "stream t s = lines_bytes ls @ stream t s'" "\<forall>l \<in> set ls. newline \<notin> set l"
      "notifications s' = notifications s @ fst (first_response (json_loads s) ls)"
      "(case snd (first_response (json_loads s) ls) of
         Some res \<Rightarrow> r = res \<and> length ls = Suc (length (fst (first_response (json_loads s) ls)))
       | None \<Rightarrow> (\<exists>e. r = Inl e) \<or> (r = Inr JNull \<and> timeout \<noteq> None))"
    by blast
  from ls first_response_sound [of "json_loads s" ls]
  show "\<exists>ls. stream t s = lines_bytes ls @ stream t s' \<and> (\<forall>l \<in> set ls. newline \<notin> set l) \<and>
         notifications s' = notifications s @ fst (first_response (json_loads s) ls) \<and>
         (\<forall>n \<in> set (fst (first_response (json_loads s) ls)). py_in ''return'' n = Inr False) \<and>
         (case snd (first_response (json_loads s) ls) of
            Some res \<Rightarrow>
              r = res \<and> length ls = Suc (length (fst (first_response (json_loads s) ls))) \<and>
              (\<forall>v. res = Inr v \<longrightarrow>
                 (\<exists>obj. json_loads s (last ls) = Some obj \<and> py_in ''return'' obj = Inr True \<and>
                        py_getitem obj ''return'' = Inr v))
          | None \<Rightarrow> (\<exists>e. r = Inl e) \<or> (r = Inr JNull \<and> timeout \<noteq> None))"
    by (intro exI [of _ ls]) (auto split: option.splits)
next
  assume h: "ready_to_call t timeout s \<and> in_time timeout s \<and>
    arriving t s = lines_bytes (nls @ [l]) @ rest \<and> (\<forall>x \<in> set (nls @ [l]). newline \<notin> set x) \<and>
    map (json_loads s) nls = map Some ns \<and> (\<forall>n \<in> set ns. py_in ''return'' n = Inr False) \<and>
    json_loads s l = Some obj \<and> py_in ''return'' obj = Inr True"
  then have fr: "first_response (json_loads s) (nls @ [l]) = (ns, Some (py_getitem obj ''return''))"
    by (intro first_response_lines) simp_all
  from h have len: "length (nls @ [l]) = Suc (length ns)"
    by (metis length_append_singleton length_map)
  from h call_arriving [of t timeout s "nls @ [l]" rest ns "py_getitem obj ''return''"
      name args kwargs, OF _ _ _ _ fr len]
  obtain s1 where "call t name args kwargs timeout s = (py_getitem obj ''return'', s1)"
    "notifications s1 = notifications s @ ns" "arriving t s1 = rest"
    by blast
  then show "fst (call t name args kwargs timeout s) = py_getitem obj ''return'' \<and>
      notifications (snd (call t name args kwargs timeout s)) = notifications s @ ns \<and>
      arriving t (snd (call t name args kwargs timeout s)) = rest"
    by simp
qed

definition example_call :: pc where
  "example_call =
     connected_client []
       [RecvData (''Na'' @ [newline] @ ''Nb''),
        RecvData ([newline] @ ''Rc'' @ [newline] @ ''Nd'')]"

text \<open>A client whose thread 0 has not connected yet, with a clock that advances by one
  second at each reading.\<close>

definition example_fresh :: pc where
  "example_fresh =
     example_client [1, 1, 1, 1, 1, 1, 1]
       [RecvData (''Na'' @ [newline] @ ''Nb''),
        RecvData ([newline] @ ''Rc'' @ [newline] @ ''Nd'')]"

lemmas example_eval =
  connected_client_eq call_def send_json_def get_connection_present sock_settimeout_def
  sock_send_def example_dumps_def call_loop.simps call_time_left_def recv_json_def
  recv_line.simps sock_recv_def partition_newline_def newline_def example_loads_def Let_def
  time_time_def wait_for_notification_def

lemma example_call_result:
  "call 0 ''version'' [] [] None example_call =
     (Inr (JStr ''c''),
      example_call\<lparr>notifications :=
                      [JObj [(''jobs_changed'', JStr ''a'')], JObj [(''jobs_changed'', JStr ''b'')]],
                    local_buffer := [0 \<mapsto> ''Nd''], recvs := [],
                    sent := [(0, ''C'' @ [newline])]\<rparr>)"
  by (simp add: example_call_def example_eval)

lemma example_fresh_ready:
  "ready_to_call 0 (Some 10) example_fresh" "in_time (Some 10) example_fresh"
  "arriving 0 example_fresh = lines_bytes ([''Na'', ''Nb''] @ [''Rc'']) @ ''Nd''"
  "json_loads example_fresh = example_loads" "notifications example_fresh = []"
  by (simp_all add: example_fresh_def example_client_def new_client_def ready_to_call_def
        in_time_def open_until_def time_time_def arriving_def buffered_def good_chunk_def
        chunk_bytes_def lines_bytes_def)

theorem call_returns_first_response_witness:
  "ready_to_call 0 (Some 10) example_fresh \<and> in_time (Some 10) example_fresh \<and>
   fst (call 0 ''version'' [] [] (Some 10) example_fresh) = Inr (JStr ''c'') \<and>
   notifications (snd (call 0 ''version'' [] [] (Some 10) example_fresh)) =
     [JObj [(''jobs_changed'', JStr ''a'')], JObj [(''jobs_changed'', JStr ''b'')]] \<and>
   arriving 0 (snd (call 0 ''version'' [] [] (Some 10) example_fresh)) = ''Nd'' \<and>
   call 0 ''version'' [] [] None example_call =
     (Inr (JStr ''c''),
      example_call\<lparr>notifications :=
                      [JObj [(''jobs_changed'', JStr ''a'')], JObj [(''jobs_changed'', JStr ''b'')]],
                    local_buffer := [0 \<mapsto> ''Nd''], recvs := [],
                    sent := [(0, ''C'' @ [newline])]\<rparr>) \<and>
   (\<exists>ls. stream 0 example_call = lines_bytes ls @ ''Nd'' \<and>
         fst (first_response example_loads ls) =
           [JObj [(''jobs_changed'', JStr ''a'')], JObj [(''jobs_changed'', JStr ''b'')]] \<and>
         snd (first_response example_loads ls) = Some (Inr (JStr ''c'')))"
proof -
  note r = example_call_result
  note f = example_fresh_ready
  from call_returns_first_response [where t = 0 and name = "''version''" and args = "[]"
      and kwargs = "[]" and timeout = None and s = example_call and r = "Inr (JStr ''c'')"
      and s' = "example_call\<lparr>notifications :=
                      [JObj [(''jobs_changed'', JStr ''a'')], JObj [(''jobs_changed'', JStr ''b'')]],
                    local_buffer := [0 \<mapsto> ''Nd''], recvs := [],
                    sent := [(0, ''C'' @ [newline])]\<rparr>", THEN conjunct1] r
  obtain ls where
    "stream 0 example_call = lines_bytes ls @ ''Nd''"
    "fst (first_response example_loads ls) =
           [JObj [(''jobs_changed'', JStr ''a'')], JObj [(''jobs_changed'', JStr ''b'')]]"
    "snd (first_response example_loads ls) = Some (Inr (JStr ''c''))"
    by (auto simp: example_call_def connected_client_eq stream_def buffered_def
             split: option.splits)
  then have b: "\<exists>ls. stream 0 example_call = lines_bytes ls @ ''Nd'' \<and>
         fst (first_response example_loads ls) =
           [JObj [(''jobs_changed'', JStr ''a'')], JObj [(''jobs_changed'', JStr ''b'')]] \<and>
         snd (first_response example_loads ls) = Some (Inr (JStr ''c''))"
    by blast
  from call_returns_first_response [where t = 0 and name = "''version''" and args = "[]"
      and kwargs = "[]" and timeout = "Some 10" and s = example_fresh
      and nls = "[''Na'', ''Nb'']" and l = "''Rc''" and rest = "''Nd''"
      and ns = "[JObj [(''jobs_changed'', JStr ''a'')], JObj [(''jobs_changed'', JStr ''b'')]]"
      and obj = "JObj [(''return'', JStr ''c'')]", THEN conjunct2] f
  have a: "fst (call 0 ''version'' [] [] (Some 10) example_fresh) = Inr (JStr ''c'') \<and>
   notifications (snd (call 0 ''version'' [] [] (Some 10) example_fresh)) =
     [JObj [(''jobs_changed'', JStr ''a'')], JObj [(''jobs_changed'', JStr ''b'')]] \<and>
   arriving 0 (snd (call 0 ''version'' [] [] (Some 10) example_fresh)) = ''Nd''"
    by (simp add: example_loads_def newline_def)
  from a b r f(1,2) show ?thesis by (intro conjI) simp_all
qed

text \<open>Successive calls of \<^verbatim>\<open>wait_for_notification\<close> by one thread, one per timeout.\<close>

fun successive_wait ::
  "thread \<Rightarrow> real option list \<Rightarrow> pc \<Rightarrow> (error + json) list \<times> pc" where
  "successive_wait t [] s = ([], s)"
| "successive_wait t (timeout # tms) s =
     (case wait_for_notification t timeout s of (r, s1) \<Rightarrow>
        (case successive_wait t tms s1 of (rs, s2) \<Rightarrow> (r # rs, s2)))"

lemma successive_wait_queue:
  "notifications s = ns @ rest \<Longrightarrow> length tms = length ns \<Longrightarrow>
   successive_wait t tms s = (map Inr ns, s\<lparr>notifications := rest\<rparr>)"
proof (induction tms arbitrary: s ns)
  case Nil
  then show ?case by simp
next
  case (Cons timeout tms)
  then obtain n ns' where ns: "ns = n # ns'" by (cases ns) auto
  with Cons.prems have w: "wait_for_notification t timeout s = (Inr n, s\<lparr>notifications := ns' @ rest\<rparr>)"
    by (simp add: wait_for_notification_def)
  from Cons.IH [of "s\<lparr>notifications := ns' @ rest\<rparr>" ns'] Cons.prems ns w
  show ?case by simp
qed

text \<open>
  C2. The notifications that arrive during a \<^verbatim>\<open>call\<close> are appended to the queue behind
  the entries it already holds, in their order of arrival, and as many calls of
  \<^verbatim>\<open>wait_for_notification\<close> as the queue has entries, with any timeouts, return the
  entries one per call, oldest first: those queued before the call, then those of the
  call. So the \<open>k\<close> notifications of the call are what the next \<open>k\<close> invocations return
  when the queue was empty before it, and otherwise they come after the older
  entries. The second part says the same from the lines that arrive.
\<close>

theorem notifications_fifo_after_call:
  "(call t name args kwargs timeout s = (r, s') \<and> length tms = length (notifications s') \<longrightarrow>
      (\<exists>ls. stream t s = lines_bytes ls @ stream t s' \<and> (\<forall>l \<in> set ls. newline \<notin> set l) \<and>
         notifications s' = notifications s @ fst (first_response (json_loads s) ls) \<and>
         successive_wait t tms s' =
           (map Inr (notifications s @ fst (first_response (json_loads s) ls)),
            s'\<lparr>notifications := []\<rparr>))) \<and>
   (ready_to_call t timeout s \<and> in_time timeout s \<and>
    arriving t s = lines_bytes (nls @ [l]) @ rest \<and> (\<forall>x \<in> set (nls @ [l]). newline \<notin> set x) \<and>
    map (json_loads s) nls = map Some ns \<and> (\<forall>n \<in> set ns. py_in ''return'' n = Inr False) \<and>
    json_loads s l = Some obj \<and> py_in ''return'' obj = Inr True \<and>
    length tms = length (notifications s) + length ns \<longrightarrow>
      fst (successive_wait t tms (snd (call t name args kwargs timeout s))) =
        map Inr (notifications s @ ns))"
proof (intro conjI impI)
  assume h: "call t name args kwargs timeout s = (r, s') \<and>
    length tms = length (notifications s')"
  from call_lines [of t name args kwargs timeout s r s'] h obtain ls where
    ls: "stream t s = lines_bytes ls @ stream t s'" "\<forall>l \<in> set ls. newline \<notin> set l"
      "notifications s' = notifications s @ fst (first_response (json_loads s) ls)"
    by auto
  from successive_wait_queue [of s' "notifications s'" "[]" tms t] h ls(3)
  have "successive_wait t tms s' =
          (map Inr (notifications s @ fst (first_response (json_loads s) ls)),
           s'\<lparr>notifications := []\<rparr>)"
    by simp
  with ls show "\<exists>ls. stream t s = lines_bytes ls @ stream t s' \<and>
         (\<forall>l \<in> set ls. newline \<notin> set l) \<and>
         notifications s' = notifications s @ fst (first_response (json_loads s) ls) \<and>
         successive_wait t tms s' =
           (map Inr (notifications s @ fst (first_response (json_loads s) ls)),
            s'\<lparr>notifications := []\<rparr>)"
    by blast
next
  assume h: "ready_to_call t timeout s \<and> in_time timeout s \<and>
    arriving t s = lines_bytes (nls @ [l]) @ rest \<and> (\<forall>x \<in> set (nls @ [l]). newline \<notin> set x) \<and>
    map (json_loads s) nls = map Some ns \<and> (\<forall>n \<in> set ns. py_in ''return'' n = Inr False) \<and>
    json_loads s l = Some obj \<and> py_in ''return'' obj = Inr True \<and>
    length tms = length (notifications s) + length ns"
  then have fr: "first_response (json_loads s) (nls @ [l]) = (ns, Some (py_getitem obj ''return''))"
    by (intro first_response_lines) simp_all
  from h have len: "length (nls @ [l]) = Suc (length ns)"
    by (metis length_append_singleton length_map)
  from h call_arriving [of t timeout s "nls @ [l]" rest ns "py_getitem obj ''return''"
      name args kwargs, OF _ _ _ _ fr len]
  obtain s1 where c: "call t name args kwargs timeout s = (py_getitem obj ''return'', s1)"
    and n: "notifications s1 = notifications s @ ns"
    by blast
  from successive_wait_queue [of s1 "notifications s @ ns" "[]" tms t] n h
  have "successive_wait t tms s1 = (map Inr (notifications s @ ns), s1\<lparr>notifications := []\<rparr>)"
    by simp
  with c show "fst (successive_wait t tms (snd (call t name args kwargs timeout s))) =
        map Inr (notifications s @ ns)"
    by simp
qed

theorem notifications_fifo_after_call_witness:
  "call 0 ''version'' [] [] None example_call =
     (Inr (JStr ''c''),
      example_call\<lparr>notifications :=
                      [JObj [(''jobs_changed'', JStr ''a'')], JObj [(''jobs_changed'', JStr ''b'')]],
                    local_buffer := [0 \<mapsto> ''Nd''], recvs := [],
                    sent := [(0, ''C'' @ [newline])]\<rparr>) \<and>
   notifications example_call = [] \<and>
   successive_wait 0 [None, Some (- 1)] (snd (call 0 ''version'' [] [] None example_call)) =
     ([Inr (JObj [(''jobs_changed'', JStr ''a'')]), Inr (JObj [(''jobs_changed'', JStr ''b'')])],
      (snd (call 0 ''version'' [] [] None example_call))\<lparr>notifications := []\<rparr>) \<and>
   fst (successive_wait 0 [None, None, None]
          (snd (call 0 ''version'' [] [] (Some 10) (example_fresh\<lparr>notifications := [JInt 0]\<rparr>)))) =
     [Inr (JInt 0), Inr (JObj [(''jobs_changed'', JStr ''a'')]),
      Inr (JObj [(''jobs_changed'', JStr ''b'')])]"
proof -
  have n: "notifications example_call = []"
    by (simp add: example_call_def connected_client_eq)
  note r = example_call_result
  let ?s1 = "example_call\<lparr>notifications :=
                      [JObj [(''jobs_changed'', JStr ''a'')], JObj [(''jobs_changed'', JStr ''b'')]],
                    local_buffer := [0 \<mapsto> ''Nd''], recvs := [],
                    sent := [(0, ''C'' @ [newline])]\<rparr>"
  from notifications_fifo_after_call [where t = 0 and name = "''version''" and args = "[]"
      and kwargs = "[]" and timeout = None and s = example_call and r = "Inr (JStr ''c'')"
      and s' = ?s1 and tms = "[None, Some (- 1)]", THEN conjunct1] r n
  obtain ls where
    a: "notifications ?s1 = fst (first_response (json_loads example_call) ls)" and
    b: "successive_wait 0 [None, Some (- 1)] ?s1 =
          (map Inr (fst (first_response (json_loads example_call) ls)), ?s1\<lparr>notifications := []\<rparr>)"
    by auto
  from a have "fst (first_response (json_loads example_call) ls) =
      [JObj [(''jobs_changed'', JStr ''a'')], JObj [(''jobs_changed'', JStr ''b'')]]"
    by simp
  with b have c: "successive_wait 0 [None, Some (- 1)] ?s1 =
     ([Inr (JObj [(''jobs_changed'', JStr ''a'')]), Inr (JObj [(''jobs_changed'', JStr ''b'')])],
      ?s1\<lparr>notifications := []\<rparr>)"
    by simp
  have f: "ready_to_call 0 (Some 10) (example_fresh\<lparr>notifications := [JInt 0]\<rparr>)"
    "in_time (Some 10) (example_fresh\<lparr>notifications := [JInt 0]\<rparr>)"
    "arriving 0 (example_fresh\<lparr>notifications := [JInt 0]\<rparr>) =
       lines_bytes ([''Na'', ''Nb''] @ [''Rc'']) @ ''Nd''"
    "json_loads (example_fresh\<lparr>notifications := [JInt 0]\<rparr>) = example_loads"
    by (simp_all add: example_fresh_def example_client_def new_client_def ready_to_call_def
          in_time_def open_until_def time_time_def arriving_def buffered_def good_chunk_def
          chunk_bytes_def lines_bytes_def)
  from notifications_fifo_after_call [where t = 0 and name = "''version''" and args = "[]"
      and kwargs = "[]" and timeout = "Some 10" and s = "example_fresh\<lparr>notifications := [JInt 0]\<rparr>"
      and nls = "[''Na'', ''Nb'']" and l = "''Rc''" and rest = "''Nd''"
      and ns = "[JObj [(''jobs_changed'', JStr ''a'')], JObj [(''jobs_changed'', JStr ''b'')]]"
      and obj = "JObj [(''return'', JStr ''c'')]" and tms = "[None, None, None]",
      THEN conjunct2] f
  have d: "fst (successive_wait 0 [None, None, None]
          (snd (call 0 ''version'' [] [] (Some 10) (example_fresh\<lparr>notifications := [JInt 0]\<rparr>)))) =
     [Inr (JInt 0), Inr (JObj [(''jobs_changed'', JStr ''a'')]),
      Inr (JObj [(''jobs_changed'', JStr ''b'')])]"
    by (simp add: example_loads_def newline_def)
  from r n c d show ?thesis by (simp only: r snd_conv)
qed

text \<open>An older notification is still queued when a call receives two more: the next two
  invocations of \<^verbatim>\<open>wait_for_notification\<close> return the older one and the first of the
  two, not the two of the call.\<close>

theorem notifications_older_entry_first:
  "fst (call 0 ''version'' [] [] None (example_call\<lparr>notifications := [JInt 0]\<rparr>)) =
     Inr (JStr ''c'') \<and>
   notifications (snd (call 0 ''version'' [] [] None (example_call\<lparr>notifications := [JInt 0]\<rparr>))) =
     [JInt 0, JObj [(''jobs_changed'', JStr ''a'')], JObj [(''jobs_changed'', JStr ''b'')]] \<and>
   fst (successive_wait 0 [None, None]
          (snd (call 0 ''version'' [] [] None (example_call\<lparr>notifications := [JInt 0]\<rparr>)))) =
     [Inr (JInt 0), Inr (JObj [(''jobs_changed'', JStr ''a'')])]"
  by (simp add: example_call_def example_eval)

text \<open>
  C4. A call whose deadline has passed at the loop test returns \<^verbatim>\<open>None\<close>: with
  \<^verbatim>\<open>timeout=0\<close> the loop is never entered, although a response is waiting; with
  \<^verbatim>\<open>timeout=10\<close> a notification arrives in time, the clock is past the deadline at
  the next test, and \<^verbatim>\<open>None\<close> is returned with the notification queued.
\<close>

theorem call_deadline_returns_none:
  "fst (call 0 ''version'' [] [] (Some 0)
          (connected_client [1 / 2, 1 / 2] [RecvData (''Ra'' @ [newline])])) = Inr JNull \<and>
   recvs (snd (call 0 ''version'' [] [] (Some 0)
          (connected_client [1 / 2, 1 / 2] [RecvData (''Ra'' @ [newline])]))) =
     [RecvData (''Ra'' @ [newline])] \<and>
   fst (call 0 ''version'' [] [] (Some 10)
          (connected_client [1, 1, 1, 20] [RecvData (''Na'' @ [newline])])) = Inr JNull \<and>
   notifications (snd (call 0 ''version'' [] [] (Some 10)
          (connected_client [1, 1, 1, 20] [RecvData (''Na'' @ [newline])]))) =
     [JObj [(''jobs_changed'', JStr ''a'')]]"
  by (simp add: example_eval)

section \<open>The job\<close>

text \<open>
  The fields of \<^verbatim>\<open>Job\<close> that its methods read: the job id (\<^verbatim>\<open>None\<close> until the job is
  created), the communication timeout, the keepalive interval, the reconnect delay, the
  stop event and the state of the keepalive thread. The client of the job is the state
  \<open>pc\<close> the methods are run on.
\<close>

datatype thread_state = NotStarted | Running | Finished

record job =
  job_id :: json
  j_timeout :: "real option"
  j_keepalive :: "real option"
  j_reconnect_delay :: real
  stop_set :: bool
  keepalive_thread :: thread_state

text \<open>\<^verbatim>\<open>ProtocolClient.version\<close>.\<close>

definition version :: "thread \<Rightarrow> real option \<Rightarrow> pc \<Rightarrow> (error + json) \<times> pc" where
  "version t timeout s = call t ''version'' [] [] timeout s"

text \<open>
  \<^verbatim>\<open>str.split(sep)\<close> and \<^verbatim>\<open>int(str)\<close> of Python 3 for strings of code points below
  256. \<^verbatim>\<open>int\<close> strips the white space of the C locale (tab to carriage return, and the
  space) and the Unicode spaces above 127, which below 256 are U+0085 and U+00A0; the
  separators U+001C to U+001F, white space for \<^verbatim>\<open>str.isspace\<close>, are not stripped. Then
  it takes one sign and decimal digits with single underscores between them, and it
  refuses a literal of more than 4300 digits (the default of
  \<^verbatim>\<open>sys.set_int_max_str_digits\<close>).
\<close>

fun py_split :: "char \<Rightarrow> string \<Rightarrow> string list" where
  "py_split sep [] = [[]]"
| "py_split sep (c # cs) =
     (if c = sep then [] # py_split sep cs
      else case py_split sep cs of
             w # ws \<Rightarrow> (c # w) # ws
           | [] \<Rightarrow> [[c]])"

definition py_isspace :: "char \<Rightarrow> bool" where
  "py_isspace c =
     (let n = (of_char c :: nat)
      in (9 \<le> n \<and> n \<le> 13) \<or> n = 32 \<or> n = 133 \<or> n = 160)"

definition py_isdigit :: "char \<Rightarrow> bool" where
  "py_isdigit c = (48 \<le> (of_char c :: nat) \<and> (of_char c :: nat) \<le> 57)"

definition digit_value :: "char \<Rightarrow> nat" where
  "digit_value c = (of_char c :: nat) - 48"

fun py_digits :: "string \<Rightarrow> nat \<Rightarrow> nat option" where
  "py_digits [] acc = Some acc"
| "py_digits [c] acc = (if py_isdigit c then Some (10 * acc + digit_value c) else None)"
| "py_digits (c # d # ds) acc =
     (if py_isdigit c then py_digits (d # ds) (10 * acc + digit_value c)
      else if c = CHR ''_'' \<and> py_isdigit d then py_digits ds (10 * acc + digit_value d)
      else None)"

definition py_int :: "string \<Rightarrow> error + int" where
  "py_int s =
     (let s1 = rev (dropWhile py_isspace (rev (dropWhile py_isspace s)));
          neg = (case s1 of [] \<Rightarrow> False | c # cs \<Rightarrow> c = CHR ''-'');
          body = (case s1 of [] \<Rightarrow> [] | c # cs \<Rightarrow> if c = CHR ''-'' \<or> c = CHR ''+'' then cs else s1)
      in if length (filter py_isdigit body) > 4300 then Inl ValueError
         else case body of
           [] \<Rightarrow> Inl ValueError
         | c # cs \<Rightarrow>
             if py_isdigit c
             then (case py_digits cs (digit_value c) of
                     None \<Rightarrow> Inl ValueError
                   | Some n \<Rightarrow> Inr (if neg then - int n else int n))
             else Inl ValueError)"

fun map_int :: "string list \<Rightarrow> error + int list" where
  "map_int [] = Inr []"
| "map_int (w # ws) =
     (case py_int w of
        Inl e \<Rightarrow> Inl e
      | Inr i \<Rightarrow> (case map_int ws of Inl e \<Rightarrow> Inl e | Inr is \<Rightarrow> Inr (i # is)))"

text \<open>\<^verbatim>\<open>tuple(map(int, v.split(".")[:3]))\<close>, and the comparison of tuples.\<close>

definition version_ints :: "string \<Rightarrow> error + int list" where
  "version_ints v = map_int (take 3 (py_split CHR ''.'' v))"

fun py_tuple_lt :: "int list \<Rightarrow> int list \<Rightarrow> bool" where
  "py_tuple_lt [] [] = False"
| "py_tuple_lt [] (y # ys) = True"
| "py_tuple_lt (x # xs) [] = False"
| "py_tuple_lt (x # xs) (y # ys) = (if x = y then py_tuple_lt xs ys else x < y)"

fun py_tuple_le :: "int list \<Rightarrow> int list \<Rightarrow> bool" where
  "py_tuple_le [] ys = True"
| "py_tuple_le (x # xs) [] = False"
| "py_tuple_le (x # xs) (y # ys) = (if x = y then py_tuple_le xs ys else x < y)"

text \<open>\<^verbatim>\<open>Job._assert_compatible_version\<close>: a value without \<^verbatim>\<open>split\<close> is an
  \<^verbatim>\<open>AttributeError\<close>; the rejection is a \<^verbatim>\<open>ValueError\<close>, raised after the client is
  closed.\<close>

definition assert_compatible_version :: "job \<Rightarrow> thread \<Rightarrow> pc \<Rightarrow> (error + unit) \<times> pc" where
  "assert_compatible_version j t s =
     (case version t (j_timeout j) s of
        (Inl e, s1) \<Rightarrow> (Inl e, s1)
      | (Inr (JStr v), s1) \<Rightarrow>
          (case version_ints v of
             Inl e \<Rightarrow> (Inl e, s1)
           | Inr v_ints \<Rightarrow>
               if \<not> (py_tuple_le [0, 0, 2] v_ints \<and> py_tuple_lt v_ints [2, 0, 0])
               then (Inl ValueError, close t s1)
               else (Inr (), s1))
      | (Inr other, s1) \<Rightarrow> (Inl AttributeError, s1))"

lemma py_tuple_lt_lex: "py_tuple_lt xs ys = (xs < ys)"
  by (induction xs ys rule: py_tuple_lt.induct) auto

lemma py_tuple_le_lex: "py_tuple_le xs ys = (xs \<le> ys)"
  by (induction xs ys rule: py_tuple_le.induct) auto

lemma map_int_error: "map_int ws = Inl e \<Longrightarrow> e = ValueError"
  by (induction ws arbitrary: e)
     (auto simp: py_int_def Let_def split: sum.splits list.splits if_splits option.splits)

lemma ex_versions:
  "version_ints ''0.0.1'' = Inr [0, 0, 1]" "version_ints ''2.0.0'' = Inr [2, 0, 0]"
  "version_ints ''0.2.0'' = Inr [0, 2, 0]" "version_ints ''1.9.9'' = Inr [1, 9, 9]"
  "version_ints ''2'' = Inr [2]" "version_ints ''1.x'' = Inl ValueError"
  "version_ints '' 1.+2 .0_3.zz'' = Inr [1, 2, 3]"
  "version_ints (CHR 0x1C # ''1.0.0'') = Inl ValueError"
  "version_ints (CHR 0xA0 # ''1.0.0'') = Inr [1, 0, 0]"
  by (simp_all add: version_ints_def py_int_def py_isspace_def py_isdigit_def digit_value_def Let_def)


text \<open>
  C3. When the server answers \<^verbatim>\<open>version\<close> with the string \<open>v\<close>, the check passes
  exactly when the first three components of \<open>v\<close> are integers whose tuple lies in
  \<open>[(0,0,2), (2,0,0))\<close> in the lexicographic order, and fails with \<^verbatim>\<open>ValueError\<close>
  otherwise; 0.0.1 and 2.0.0 are rejected (and the client closed), 0.2.0 and 1.9.9 are
  accepted.
\<close>

theorem version_gate:
  assumes "version t (j_timeout j) s = (Inr (JStr v), s1)"
  shows "(fst (assert_compatible_version j t s) = Inr ()) =
           (\<exists>vi. version_ints v = Inr vi \<and> [0, 0, 2] \<le> vi \<and> vi < [2, 0, 0]) \<and>
         (fst (assert_compatible_version j t s) = Inr () \<or>
          fst (assert_compatible_version j t s) = Inl ValueError) \<and>
         (v = ''0.0.1'' \<or> v = ''2.0.0'' \<longrightarrow>
            assert_compatible_version j t s = (Inl ValueError, close t s1)) \<and>
         (v = ''0.2.0'' \<or> v = ''1.9.9'' \<longrightarrow> assert_compatible_version j t s = (Inr (), s1))"
proof -
  have a: "assert_compatible_version j t s =
          (case version_ints v of
             Inl e \<Rightarrow> (Inl e, s1)
           | Inr v_ints \<Rightarrow>
               if \<not> ([0, 0, 2] \<le> v_ints \<and> v_ints < [2, 0, 0])
               then (Inl ValueError, close t s1)
               else (Inr (), s1))"
    using assms
    by (simp add: assert_compatible_version_def py_tuple_lt_lex py_tuple_le_lex cong: sum.case_cong)
  show ?thesis
  proof (cases "version_ints v")
    case (Inl e)
    then have "e = ValueError" by (simp add: version_ints_def map_int_error)
    with Inl a show ?thesis by (auto simp: ex_versions)
  next
    case (Inr vi)
    with a show ?thesis by (auto simp: ex_versions)
  qed
qed

theorem version_gate_witness:
  "version 0 None (connected_client [] [RecvData (''R1.9.9'' @ [newline])]) =
     (Inr (JStr ''1.9.9''),
      (connected_client [] [RecvData (''R1.9.9'' @ [newline])])
        \<lparr>local_buffer := [0 \<mapsto> []], recvs := [], sent := [(0, ''C'' @ [newline])]\<rparr>) \<and>
   assert_compatible_version
     \<lparr>job_id = JNull, j_timeout = None, j_keepalive = None, j_reconnect_delay = 5,
      stop_set = False, keepalive_thread = NotStarted\<rparr>
     0 (connected_client [] [RecvData (''R1.9.9'' @ [newline])]) =
     (Inr (),
      (connected_client [] [RecvData (''R1.9.9'' @ [newline])])
        \<lparr>local_buffer := [0 \<mapsto> []], recvs := [], sent := [(0, ''C'' @ [newline])]\<rparr>)"
proof -
  have v: "version 0 None (connected_client [] [RecvData (''R1.9.9'' @ [newline])]) =
     (Inr (JStr ''1.9.9''),
      (connected_client [] [RecvData (''R1.9.9'' @ [newline])])
        \<lparr>local_buffer := [0 \<mapsto> []], recvs := [], sent := [(0, ''C'' @ [newline])]\<rparr>)"
    by (simp add: version_def example_eval)
  from version_gate [of 0 "\<lparr>job_id = JNull, j_timeout = None, j_keepalive = None,
      j_reconnect_delay = 5, stop_set = False, keepalive_thread = NotStarted\<rparr>"
      "connected_client [] [RecvData (''R1.9.9'' @ [newline])]" "''1.9.9''"
      "(connected_client [] [RecvData (''R1.9.9'' @ [newline])])
        \<lparr>local_buffer := [0 \<mapsto> []], recvs := [], sent := [(0, ''C'' @ [newline])]\<rparr>"] v
  show ?thesis by simp
qed

text \<open>The protocol methods of the client that the job uses.\<close>

definition job_keepalive :: "thread \<Rightarrow> json \<Rightarrow> real option \<Rightarrow> pc \<Rightarrow> (error + json) \<times> pc" where
  "job_keepalive t jid timeout s = call t ''job_keepalive'' [jid] [] timeout s"

definition get_job_state :: "thread \<Rightarrow> json \<Rightarrow> real option \<Rightarrow> pc \<Rightarrow> (error + json) \<times> pc" where
  "get_job_state t jid timeout s = call t ''get_job_state'' [jid] [] timeout s"

definition notify_job :: "thread \<Rightarrow> json \<Rightarrow> real option \<Rightarrow> pc \<Rightarrow> (error + json) \<times> pc" where
  "notify_job t jid timeout s = call t ''notify_job'' [jid] [] timeout s"

definition destroy_job ::
  "thread \<Rightarrow> json \<Rightarrow> json \<Rightarrow> real option \<Rightarrow> pc \<Rightarrow> (error + json) \<times> pc" where
  "destroy_job t jid reason timeout s = call t ''destroy_job'' [jid, reason] [] timeout s"

text \<open>\<^verbatim>\<open>logger.warning\<close>.\<close>

definition logger_warning :: "string \<Rightarrow> pc \<Rightarrow> pc" where
  "logger_warning msg s = s\<lparr>warnings := warnings s @ [msg]\<rparr>"

text \<open>\<^verbatim>\<open>Job._reconnect\<close>: only \<^verbatim>\<open>OSError\<close> is caught, logged and answered by closing the
  client.\<close>

definition reconnect :: "job \<Rightarrow> thread \<Rightarrow> pc \<Rightarrow> (error + unit) \<times> pc" where
  "reconnect j t s =
     (case (case connect t (j_timeout j) s of
              (Inl e, s1) \<Rightarrow> (Inl e, s1)
            | (Inr u, s1) \<Rightarrow> assert_compatible_version j t s1) of
        (Inl e, s2) \<Rightarrow>
          if e = OSError
          then (Inr (), close t (logger_warning ''Reconnect attempt failed'' s2))
          else (Inl e, s2)
      | (Inr u, s2) \<Rightarrow> (Inr (), s2))"

text \<open>
  \<^verbatim>\<open>Job.destroy\<close>. \<^verbatim>\<open>Thread.join\<close> raises \<^verbatim>\<open>RuntimeError\<close> for a thread that was never
  started and otherwise returns when the thread has ended; \<open>s\<close> is the state of the
  client at that moment. \<^verbatim>\<open>destroy_job\<close> is called without a timeout.
\<close>

definition destroy :: "job \<Rightarrow> thread \<Rightarrow> json \<Rightarrow> pc \<Rightarrow> (error + unit) \<times> job \<times> pc" where
  "destroy j t reason s =
     (let j1 = j\<lparr>stop_set := True\<rparr>
      in if keepalive_thread j1 = NotStarted then (Inl RuntimeError, j1, s)
         else
           let j2 = j1\<lparr>keepalive_thread := Finished\<rparr>
           in case destroy_job t (job_id j2) reason None s of
                (Inl e, s1) \<Rightarrow>
                  if e = OSError \<or> e = ProtocolTimeoutError
                  then (Inr (), j2, close t (logger_warning ''Could not destroy job'' s1))
                  else (Inl e, j2, s1)
              | (Inr v, s1) \<Rightarrow> (Inr (), j2, close t s1))"

lemma close_frame:
  "dead (close t s)" "socks (close t s) = []" "warnings (close t s) = warnings s"
  "sent (close t s) = sent s"
proof -
  have w: "\<And>keys s. warnings (fold (close_one t) keys s) = warnings s \<and>
                    sent (fold (close_one t) keys s) = sent s"
  proof -
    fix keys s
    show "warnings (fold (close_one t) keys s) = warnings s \<and>
                    sent (fold (close_one t) keys s) = sent s"
      by (induction keys arbitrary: s)
         (simp_all add: close_one_def sock_close_def Let_def split: option.splits)
  qed
  let ?s1 = "s\<lparr>dead := True\<rparr>"
  note f = fold_close_one [of t "map fst (socks ?s1)" ?s1]
  have "filter (\<lambda>(k, v). k \<notin> set (map fst (socks s))) (socks s) = []"
    by (auto simp: filter_empty_conv intro: rev_image_eqI)
  with f w [of "map fst (socks s)" ?s1]
  show "dead (close t s)" "socks (close t s) = []" "warnings (close t s) = warnings s"
    "sent (close t s) = sent s"
    by (simp_all add: close_def Let_def)
qed

text \<open>
  The outcomes of the request that the handler of \<^verbatim>\<open>destroy\<close> expects, for a job whose
  keepalive thread was started: whether the \<^verbatim>\<open>destroy_job\<close> request succeeds, fails
  with \<^verbatim>\<open>OSError\<close> or times out, \<^verbatim>\<open>destroy\<close> returns normally; the failure is logged
  as one warning; and the client is closed after the request (dead, no socket in the
  table, nothing sent after it).
\<close>

lemma destroy_expected_outcomes:
  assumes "keepalive_thread j \<noteq> NotStarted"
    and "destroy_job t (job_id j) reason None s = (r, s1)"
    and "(\<exists>v. r = Inr v) \<or> r = Inl OSError \<or> r = Inl ProtocolTimeoutError"
  shows "destroy j t reason s =
           (Inr (), j\<lparr>stop_set := True, keepalive_thread := Finished\<rparr>,
            close t (if \<exists>v. r = Inr v then s1
                     else logger_warning ''Could not destroy job'' s1)) \<and>
         dead (snd (snd (destroy j t reason s))) \<and>
         socks (snd (snd (destroy j t reason s))) = [] \<and>
         sent (snd (snd (destroy j t reason s))) = sent s1 \<and>
         warnings (snd (snd (destroy j t reason s))) =
           (if \<exists>v. r = Inr v then warnings s1 else warnings s1 @ [''Could not destroy job''])"
proof -
  from assms
  have "destroy j t reason s =
           (Inr (), j\<lparr>stop_set := True, keepalive_thread := Finished\<rparr>,
            close t (if \<exists>v. r = Inr v then s1
                     else logger_warning ''Could not destroy job'' s1))"
    by (auto simp: destroy_def Let_def)
  then show ?thesis
    by (simp add: close_frame logger_warning_def)
qed

definition example_job :: job where
  "example_job =
     \<lparr>job_id = JInt 7, j_timeout = Some 1, j_keepalive = Some 4, j_reconnect_delay = 5,
      stop_set = False, keepalive_thread = Running\<rparr>"

lemma destroy_expected_outcomes_example:
  "keepalive_thread example_job \<noteq> NotStarted \<and>
   destroy_job 0 (job_id example_job) JNull None (connected_client [] []) =
     (Inl OSError, (connected_client [] [])\<lparr>sent := [(0, ''C'' @ [newline])]\<rparr>) \<and>
   fst (destroy example_job 0 JNull (connected_client [] [])) = Inr () \<and>
   dead (snd (snd (destroy example_job 0 JNull (connected_client [] [])))) \<and>
   warnings (snd (snd (destroy example_job 0 JNull (connected_client [] [])))) =
     [''Could not destroy job'']"
proof -
  have k: "keepalive_thread example_job \<noteq> NotStarted" by (simp add: example_job_def)
  have d: "destroy_job 0 (job_id example_job) JNull None (connected_client [] []) =
     (Inl OSError, (connected_client [] [])\<lparr>sent := [(0, ''C'' @ [newline])]\<rparr>)"
    by (simp add: destroy_job_def example_eval)
  have w: "warnings (connected_client [] []) = []" by (simp add: connected_client_eq)
  have o: "(\<exists>v. (Inl OSError :: error + json) = Inr v) \<or>
           (Inl OSError :: error + json) = Inl OSError \<or>
           (Inl OSError :: error + json) = Inl ProtocolTimeoutError"
    by simp
  from destroy_expected_outcomes [OF k d o] k d w show ?thesis
    by (simp add: close_frame logger_warning_def)
qed

text \<open>\<^verbatim>\<open>Job.get_state\<close>; the fields are read in the order of the call.\<close>

definition get_state :: "job \<Rightarrow> thread \<Rightarrow> pc \<Rightarrow> (error + job_state_tuple) \<times> pc" where
  "get_state j t s =
     (case get_job_state t (job_id j) (j_timeout j) s of
        (Inl e, s1) \<Rightarrow> (Inl e, s1)
      | (Inr st, s1) \<Rightarrow>
          (case py_getitem st ''state'' of
             Inl e \<Rightarrow> (Inl e, s1)
           | Inr sv \<Rightarrow>
               (case JobState s1 sv of
                  None \<Rightarrow> (Inl ValueError, s1)
                | Some js \<Rightarrow>
                    (case py_getitem st ''power'' of
                       Inl e \<Rightarrow> (Inl e, s1)
                     | Inr p \<Rightarrow>
                         (case py_getitem st ''keepalive'' of
                            Inl e \<Rightarrow> (Inl e, s1)
                          | Inr ka \<Rightarrow>
                              (case py_getitem st ''reason'' of
                                 Inl e \<Rightarrow> (Inl e, s1)
                               | Inr rs \<Rightarrow>
                                   (let tuple = \<lparr>st_state = js, st_power = p,
                                                 st_keepalive = ka, st_reason = rs\<rparr>
                                    in (Inr tuple, s1\<lparr>polled := polled s1 @ [tuple]\<rparr>))))))))"

text \<open>The loop test \<^verbatim>\<open>finish_time is None or finish_time > time.time()\<close>.\<close>

definition deadline_open :: "real option \<Rightarrow> pc \<Rightarrow> bool \<times> pc" where
  "deadline_open finish_time s =
     (case finish_time of
        None \<Rightarrow> (True, s)
      | Some ft \<Rightarrow> (case time_time s of (n, s1) \<Rightarrow> (ft > n, s1)))"

text \<open>\<^verbatim>\<open>time.time() + timeout if timeout is not None else None\<close>.\<close>

definition finish_time_of :: "real option \<Rightarrow> pc \<Rightarrow> real option \<times> pc" where
  "finish_time_of timeout s =
     (case timeout of
        None \<Rightarrow> (None, s)
      | Some tm \<Rightarrow> (case time_time s of (n, s1) \<Rightarrow> (Some (n + tm), s1)))"

text \<open>The outcome of a loop body: the loop goes on or is left, the function returns, or
  an exception leaves the loop.\<close>

datatype 'a flow = Break | Return 'a | Raise error

text \<open>The time to wait for a notification inside \<^verbatim>\<open>wait_for_state_change\<close>; dividing
  the keepalive \<^verbatim>\<open>None\<close> is a \<^verbatim>\<open>TypeError\<close>.\<close>

definition wait_timeout :: "job \<Rightarrow> real option \<Rightarrow> pc \<Rightarrow> (error + real) \<times> pc" where
  "wait_timeout j finish_time s =
     (case finish_time of
        Some ft \<Rightarrow>
          (case j_keepalive j of
             Some ka \<Rightarrow> (case time_time s of (n, s1) \<Rightarrow> (Inr (min (ka / 2) (ft - n)), s1))
           | None \<Rightarrow> (case time_time s of (n, s1) \<Rightarrow> (Inr (ft - n), s1)))
      | None \<Rightarrow>
          (case j_keepalive j of
             Some ka \<Rightarrow> (Inr (ka / 2), s)
           | None \<Rightarrow> (Inl TypeError, s)))"

text \<open>
  The innermost loop of \<^verbatim>\<open>wait_for_state_change\<close>: a keepalive, then a wait for a
  notification. \<open>Break\<close> is its \<^verbatim>\<open>break\<close>, \<open>Return\<close> the \<^verbatim>\<open>return old_state\<close> of its
  \<^verbatim>\<open>else\<close> branch. Only the \<^verbatim>\<open>ProtocolTimeoutError\<close> of the wait is caught here. The
  first argument bounds the number of iterations; \<open>None\<close> means the bound was reached.
\<close>

fun wsc_keepalive ::
  "nat \<Rightarrow> job \<Rightarrow> thread \<Rightarrow> job_state \<Rightarrow> real option \<Rightarrow> pc \<Rightarrow> (job_state flow \<times> pc) option" where
  "wsc_keepalive 0 j t old_state finish_time s = None"
| "wsc_keepalive (Suc n) j t old_state finish_time s =
     (case deadline_open finish_time s of
        (False, s1) \<Rightarrow> Some (Return old_state, s1)
      | (True, s1) \<Rightarrow>
          (case job_keepalive t (job_id j) (j_timeout j) s1 of
             (Inl e, s2) \<Rightarrow> Some (Raise e, s2)
           | (Inr u, s2) \<Rightarrow>
               (case wait_timeout j finish_time s2 of
                  (Inl e, s3) \<Rightarrow> Some (Raise e, s3)
                | (Inr wt, s3) \<Rightarrow>
                    if wt \<ge> 0 then
                      (case wait_for_notification t (Some wt) s3 of
                         (Inl e, s4) \<Rightarrow>
                           if e = ProtocolTimeoutError
                           then wsc_keepalive n j t old_state finish_time s4
                           else Some (Raise e, s4)
                       | (Inr u, s4) \<Rightarrow> Some (Break, s4))
                    else wsc_keepalive n j t old_state finish_time s3)))"

text \<open>The middle loop: poll the state, return a state that differs, otherwise keep the
  job alive until a notification arrives. \<open>Break\<close> means the loop test failed.\<close>

fun wsc_poll ::
  "nat \<Rightarrow> job \<Rightarrow> thread \<Rightarrow> job_state \<Rightarrow> real option \<Rightarrow> pc \<Rightarrow> (job_state flow \<times> pc) option" where
  "wsc_poll 0 j t old_state finish_time s = None"
| "wsc_poll (Suc n) j t old_state finish_time s =
     (case deadline_open finish_time s of
        (False, s1) \<Rightarrow> Some (Break, s1)
      | (True, s1) \<Rightarrow>
          (case get_state j t s1 of
             (Inl e, s2) \<Rightarrow> Some (Raise e, s2)
           | (Inr st, s2) \<Rightarrow>
               if st_state st \<noteq> old_state then Some (Return (st_state st), s2)
               else
                 (case wsc_keepalive n j t old_state finish_time s2 of
                    None \<Rightarrow> None
                  | Some (Break, s3) \<Rightarrow> wsc_poll n j t old_state finish_time s3
                  | Some (Return v, s3) \<Rightarrow> Some (Return v, s3)
                  | Some (Raise e, s3) \<Rightarrow> Some (Raise e, s3))))"

text \<open>The handler of the outer loop: close, sleep, reconnect.\<close>

definition wsc_recover :: "job \<Rightarrow> thread \<Rightarrow> real option \<Rightarrow> pc \<Rightarrow> (error + unit) \<times> pc" where
  "wsc_recover j t finish_time s =
     (let s1 = close t s
      in case (case finish_time of
                 Some ft \<Rightarrow>
                   (case time_time s1 of (n, s2) \<Rightarrow> (min (ft - n) (j_reconnect_delay j), s2))
               | None \<Rightarrow> (j_reconnect_delay j, s1)) of
           (delay, s2) \<Rightarrow> reconnect j t (time_sleep (max 0 delay) s2))"

text \<open>The outer loop: subscribe with \<^verbatim>\<open>notify_job\<close> (which has no timeout), run the
  middle loop, and recover from \<^verbatim>\<open>OSError\<close> and \<^verbatim>\<open>ProtocolTimeoutError\<close>.\<close>

fun wsc_outer ::
  "nat \<Rightarrow> job \<Rightarrow> thread \<Rightarrow> job_state \<Rightarrow> real option \<Rightarrow> pc \<Rightarrow> ((error + job_state) \<times> pc) option" where
  "wsc_outer 0 j t old_state finish_time s = None"
| "wsc_outer (Suc n) j t old_state finish_time s =
     (case deadline_open finish_time s of
        (False, s1) \<Rightarrow> Some (Inr old_state, s1)
      | (True, s1) \<Rightarrow>
          (case (case notify_job t (job_id j) None s1 of
                   (Inl e, s2) \<Rightarrow> Some (Raise e, s2)
                 | (Inr u, s2) \<Rightarrow> wsc_poll n j t old_state finish_time s2) of
             None \<Rightarrow> None
           | Some (Return v, s3) \<Rightarrow> Some (Inr v, s3)
           | Some (Break, s3) \<Rightarrow> wsc_outer n j t old_state finish_time s3
           | Some (Raise e, s3) \<Rightarrow>
               if e = OSError \<or> e = ProtocolTimeoutError then
                 (case wsc_recover j t finish_time s3 of
                    (Inl e', s4) \<Rightarrow> Some (Inl e', s4)
                  | (Inr u, s4) \<Rightarrow> wsc_outer n j t old_state finish_time s4)
               else Some (Inl e, s3)))"

definition wait_for_state_change ::
  "nat \<Rightarrow> job \<Rightarrow> thread \<Rightarrow> job_state \<Rightarrow> real option \<Rightarrow> pc \<Rightarrow> ((error + job_state) \<times> pc) option" where
  "wait_for_state_change fuel j t old_state timeout s =
     (case finish_time_of timeout s of
        (finish_time, s0) \<Rightarrow> wsc_outer fuel j t old_state finish_time s0)"



lemma recv_json_polled: "recv_json t timeout s = (r, s') \<Longrightarrow> polled s' = polled s"
  by (auto simp: recv_json_def split: prod.splits sum.splits
           dest!: get_connection_frame recv_line_keeps)

lemma send_json_polled: "send_json t obj timeout s = (r, s') \<Longrightarrow> polled s' = polled s"
  by (auto simp: send_json_def Let_def split: prod.splits sum.splits option.splits if_splits
           dest!: get_connection_frame sock_send_keeps)

lemma call_loop_polled: "call_loop t ft s = (r, s') \<Longrightarrow> polled s' = polled s"
proof (induction t ft s rule: call_loop.induct)
  case (1 t ft s)
  obtain x1 s1 where tl: "call_time_left ft s = (x1, s1)" by (cases "call_time_left ft s")
  from call_time_left_frame [OF tl] have p1: "polled s1 = polled s" by simp
  show ?case
  proof (cases x1)
    case None
    with "1.prems" tl p1 show ?thesis by (subst (asm) call_loop.simps) simp
  next
    case (Some time_left)
    obtain x2 s2 where rj: "recv_json t time_left s1 = (x2, s2)"
      by (cases "recv_json t time_left s1")
    from recv_json_polled [OF rj] p1 have p2: "polled s2 = polled s" by simp
    show ?thesis
    proof (cases x2)
      case (Inl e)
      with "1.prems" tl Some rj p2 show ?thesis by (subst (asm) call_loop.simps) simp
    next
      case (Inr obj)
      show ?thesis
      proof (cases "py_in ''return'' obj")
        case (Inl e)
        with "1.prems" tl Some rj Inr p2 show ?thesis by (subst (asm) call_loop.simps) simp
      next
        case b: (Inr b)
        show ?thesis
        proof (cases b)
          case True
          with "1.prems" tl Some rj Inr b p2 show ?thesis
            by (subst (asm) call_loop.simps) (auto split: sum.splits)
        next
          case False
          with "1.prems" tl Some rj Inr b
          have rec: "call_loop t ft (s2\<lparr>notifications := notifications s2 @ [obj]\<rparr>) = (r, s')"
            by (subst (asm) call_loop.simps) simp
          from "1.IH" [OF tl [symmetric] Some rj [symmetric] Inr b _ rec] False p2
          show ?thesis by simp
        qed
      qed
    qed
  qed
qed

lemma call_polled: "call t name args kwargs timeout s = (r, s') \<Longrightarrow> polled s' = polled s"
  by (auto simp: call_def Let_def split: option.splits prod.splits sum.splits
           dest!: time_time_frame send_json_polled call_loop_polled)

lemma wait_for_notification_polled:
  "wait_for_notification t timeout s = (r, s') \<Longrightarrow> polled s' = polled s"
  by (auto simp: wait_for_notification_def split: list.splits option.splits if_splits
           dest!: recv_json_polled)

lemma close_polled: "polled (close t s) = polled s"
proof -
  have "\<And>keys s. polled (fold (close_one t) keys s) = polled s"
  proof -
    fix keys s
    show "polled (fold (close_one t) keys s) = polled s"
      by (induction keys arbitrary: s) (simp_all add: close_one_frame)
  qed
  then show ?thesis by (simp add: close_def Let_def)
qed

lemma connect_sock_polled: "connect_sock t timeout s = (r, s') \<Longrightarrow> polled s' = polled s"
  by (subst (asm) connect_sock.simps)
     (auto simp: close_one_frame split: prod.splits sum.splits option.splits if_splits
           dest!: get_connection_frame sock_connect_frame)

lemma connect_polled: "connect t timeout s = (r, s') \<Longrightarrow> polled s' = polled s"
  by (auto simp: connect_def Let_def close_one_frame split: option.splits if_splits
           dest!: connect_sock_polled)

lemma assert_compatible_version_polled:
  "assert_compatible_version j t s = (r, s') \<Longrightarrow> polled s' = polled s"
  by (auto simp: assert_compatible_version_def version_def close_polled
           split: prod.splits sum.splits json.splits if_splits dest!: call_polled)

lemma reconnect_polled: "reconnect j t s = (r, s') \<Longrightarrow> polled s' = polled s"
  by (auto simp: reconnect_def close_polled logger_warning_def
           split: prod.splits sum.splits if_splits
           dest!: connect_polled assert_compatible_version_polled)

lemma wsc_recover_polled: "wsc_recover j t ft s = (r, s') \<Longrightarrow> polled s' = polled s"
  by (auto simp: wsc_recover_def Let_def time_sleep_def close_polled
           split: option.splits prod.splits
           dest!: reconnect_polled time_time_frame)

lemma get_state_polled:
  "get_state j t s = (r, s') \<Longrightarrow>
   (case r of Inl e \<Rightarrow> polled s' = polled s | Inr st \<Rightarrow> polled s' = polled s @ [st])"
  by (auto simp: get_state_def get_job_state_def Let_def
           split: prod.splits sum.splits option.splits dest!: call_polled)

lemma deadline_open_closed:
  "deadline_open ft s = (b, s1) \<Longrightarrow>
   polled s1 = polled s \<and> (\<not> b \<longrightarrow> (\<exists>f. ft = Some f \<and> f \<le> now s1))"
  by (auto simp: deadline_open_def time_time_def split: option.splits list.splits)


text \<open>The states polled so far, and two ways in which they can have grown between two
  moments: by polls that all gave \<open>old\<close>, or by such polls followed by one that gave
  \<open>v\<close>.\<close>

definition polled_states :: "pc \<Rightarrow> job_state list" where
  "polled_states s = map st_state (polled s)"

definition only_old :: "job_state \<Rightarrow> pc \<Rightarrow> pc \<Rightarrow> bool" where
  "only_old old s s' = (\<exists>k. polled_states s' = polled_states s @ replicate k old)"

definition then_new :: "job_state \<Rightarrow> job_state \<Rightarrow> pc \<Rightarrow> pc \<Rightarrow> bool" where
  "then_new old v s s' = (\<exists>k. polled_states s' = polled_states s @ replicate k old @ [v])"

lemma only_old_refl: "polled s' = polled s \<Longrightarrow> only_old old s s'"
  by (auto simp: only_old_def polled_states_def intro: exI [of _ 0])

lemma only_old_trans: "only_old old s s1 \<Longrightarrow> only_old old s1 s2 \<Longrightarrow> only_old old s s2"
  by (auto simp: only_old_def replicate_add [symmetric])

lemma only_old_then_new: "only_old old s s1 \<Longrightarrow> then_new old v s1 s2 \<Longrightarrow> then_new old v s s2"
  unfolding only_old_def then_new_def
proof (elim exE)
  fix k k'
  assume "polled_states s1 = polled_states s @ replicate k old"
    "polled_states s2 = polled_states s1 @ replicate k' old @ [v]"
  then have "polled_states s2 = polled_states s @ replicate (k + k') old @ [v]"
    by (simp add: replicate_add)
  then show "\<exists>k. polled_states s2 = polled_states s @ replicate k old @ [v]" ..
qed

lemma only_old_step: "polled s1 = polled s @ [st] \<Longrightarrow> st_state st = old \<Longrightarrow> only_old old s s1"
  by (auto simp: only_old_def polled_states_def intro: exI [of _ "Suc 0"])

lemma then_new_step: "polled s1 = polled s @ [st] \<Longrightarrow> then_new old (st_state st) s s1"
  by (auto simp: then_new_def polled_states_def intro: exI [of _ 0])

text \<open>What a wait that started in \<open>s\<close> and ended in \<open>s'\<close> has seen.\<close>

definition wait_outcome ::
  "job_state \<Rightarrow> real option \<Rightarrow> pc \<Rightarrow> pc \<Rightarrow> job_state option \<Rightarrow> bool" where
  "wait_outcome old ft s s' res =
     (case res of
        None \<Rightarrow> only_old old s s'
      | Some v \<Rightarrow>
          if v = old then only_old old s s' \<and> (\<exists>f. ft = Some f \<and> f \<le> now s')
          else then_new old v s s')"

lemma wait_outcome_trans:
  "only_old old s s1 \<Longrightarrow> wait_outcome old ft s1 s2 res \<Longrightarrow> wait_outcome old ft s s2 res"
  by (auto simp: wait_outcome_def split: option.splits if_splits
           intro: only_old_trans only_old_then_new)

lemma wsc_keepalive_result:
  "wsc_keepalive n j t old ft s = Some (fl, s') \<Longrightarrow>
   polled s' = polled s \<and> (\<forall>v. fl = Return v \<longrightarrow> v = old \<and> (\<exists>f. ft = Some f \<and> f \<le> now s'))"
proof (induction n arbitrary: s)
  case 0
  then show ?case by simp
next
  case (Suc n)
  obtain b s1 where d: "deadline_open ft s = (b, s1)" by (cases "deadline_open ft s")
  note d1 = deadline_open_closed [OF d]
  show ?case
  proof (cases b)
    case False
    with Suc.prems d d1 show ?thesis by auto
  next
    case True
    obtain x2 s2 where k: "job_keepalive t (job_id j) (j_timeout j) s1 = (x2, s2)"
      by (cases "job_keepalive t (job_id j) (j_timeout j) s1")
    from k have p2: "polled s2 = polled s1" by (auto simp: job_keepalive_def dest: call_polled)
    show ?thesis
    proof (cases x2)
      case (Inl e)
      with Suc.prems d True k p2 d1 show ?thesis by auto
    next
      case (Inr u)
      obtain x3 s3 where w: "wait_timeout j ft s2 = (x3, s3)" by (cases "wait_timeout j ft s2")
      then have p3: "polled s3 = polled s2"
        by (auto simp: wait_timeout_def split: option.splits prod.splits dest!: time_time_frame)
      show ?thesis
      proof (cases x3)
        case (Inl e)
        with Suc.prems d True k Inr w p2 p3 d1 show ?thesis by auto
      next
        case wt: (Inr wt)
        show ?thesis
        proof (cases "wt \<ge> 0")
          case False
          with Suc.prems d True k Inr w wt
          have "wsc_keepalive n j t old ft s3 = Some (fl, s')" by simp
          from Suc.IH [OF this] p2 p3 d1 show ?thesis by simp
        next
          case nonneg: True
          obtain x4 s4 where n4: "wait_for_notification t (Some wt) s3 = (x4, s4)"
            by (cases "wait_for_notification t (Some wt) s3")
          from wait_for_notification_polled [OF n4] have p4: "polled s4 = polled s3" .
          show ?thesis
          proof (cases "x4 = Inl ProtocolTimeoutError")
            case True
            with Suc.prems d \<open>b\<close> k Inr w wt nonneg n4
            have "wsc_keepalive n j t old ft s4 = Some (fl, s')" by simp
            from Suc.IH [OF this] p2 p3 p4 d1 show ?thesis by simp
          next
            case False
            with Suc.prems d \<open>b\<close> k Inr w wt nonneg n4 p2 p3 p4 d1 show ?thesis
              by (cases x4) auto
          qed
        qed
      qed
    qed
  qed
qed

lemma wsc_poll_result:
  "wsc_poll n j t old ft s = Some (fl, s') \<Longrightarrow>
   wait_outcome old ft s s' (case fl of Return v \<Rightarrow> Some v | _ \<Rightarrow> None)"
proof (induction n arbitrary: s)
  case 0
  then show ?case by simp
next
  case (Suc n)
  obtain b s1 where d: "deadline_open ft s = (b, s1)" by (cases "deadline_open ft s")
  from deadline_open_closed [OF d] have o1: "only_old old s s1" by (simp add: only_old_refl)
  show ?case
  proof (cases b)
    case False
    with Suc.prems d o1 show ?thesis by (auto simp: wait_outcome_def)
  next
    case True
    obtain x2 s2 where g: "get_state j t s1 = (x2, s2)" by (cases "get_state j t s1")
    note g2 = get_state_polled [OF g]
    show ?thesis
    proof (cases x2)
      case (Inl e)
      with g2 have "only_old old s1 s2" by (simp add: only_old_refl)
      with Suc.prems d True g Inl o1 show ?thesis
        by (auto simp: wait_outcome_def intro: only_old_trans)
    next
      case (Inr st)
      with g2 have p2: "polled s2 = polled s1 @ [st]" by simp
      show ?thesis
      proof (cases "st_state st = old")
        case False
        with Suc.prems d True g Inr have "fl = Return (st_state st)" "s' = s2" by simp_all
        with then_new_step [OF p2, of old] o1 False show ?thesis
          by (auto simp: wait_outcome_def intro: only_old_then_new)
      next
        case same: True
        from only_old_step [OF p2 same] o1 have o2: "only_old old s s2"
          by (blast intro: only_old_trans)
        from Suc.prems d True g Inr same
        obtain fl3 s3 where k: "wsc_keepalive n j t old ft s2 = Some (fl3, s3)"
          by (auto split: option.splits)
        note k3 = wsc_keepalive_result [OF k]
        then have o3: "only_old old s s3" using o2 by (auto intro: only_old_trans only_old_refl)
        show ?thesis
        proof (cases fl3)
          case Break
          with Suc.prems d True g Inr same k
          have "wsc_poll n j t old ft s3 = Some (fl, s')" by simp
          from wait_outcome_trans [OF o3 Suc.IH [OF this]] show ?thesis .
        next
          case (Return v)
          with Suc.prems d True g Inr same k have "fl = Return v" "s' = s3" by simp_all
          with k3 Return o3 show ?thesis by (auto simp: wait_outcome_def)
        next
          case (Raise e)
          with Suc.prems d True g Inr same k have "fl = Raise e" "s' = s3" by simp_all
          with o3 show ?thesis by (auto simp: wait_outcome_def)
        qed
      qed
    qed
  qed
qed


lemma wsc_outer_result:
  "wsc_outer n j t old ft s = Some (r, s') \<Longrightarrow>
   wait_outcome old ft s s' (case r of Inr v \<Rightarrow> Some v | Inl e \<Rightarrow> None)"
proof (induction n arbitrary: s)
  case 0
  then show ?case by simp
next
  case (Suc n)
  obtain b s1 where d: "deadline_open ft s = (b, s1)" by (cases "deadline_open ft s")
  note d1 = deadline_open_closed [OF d]
  then have o1: "only_old old s s1" by (simp add: only_old_refl)
  show ?case
  proof (cases b)
    case False
    with Suc.prems d d1 o1 show ?thesis by (auto simp: wait_outcome_def)
  next
    case True
    define body where "body =
      (case notify_job t (job_id j) None s1 of
         (Inl e, s2) \<Rightarrow> Some (Raise e, s2)
       | (Inr u, s2) \<Rightarrow> wsc_poll n j t old ft s2)"
    from Suc.prems d True obtain fl s3 where b: "body = Some (fl, s3)"
      by (auto simp: body_def [symmetric] split: option.splits)
    have o3: "wait_outcome old ft s s3 (case fl of Return v \<Rightarrow> Some v | _ \<Rightarrow> None)"
    proof -
      obtain x2 s2 where nj: "notify_job t (job_id j) None s1 = (x2, s2)"
        by (cases "notify_job t (job_id j) None s1")
      then have "polled s2 = polled s1" by (auto simp: notify_job_def dest: call_polled)
      with d1 have o2: "only_old old s s2" by (simp add: only_old_refl)
      show ?thesis
      proof (cases x2)
        case (Inl e)
        with b nj o2 show ?thesis by (auto simp: body_def wait_outcome_def)
      next
        case (Inr u)
        with b nj have "wsc_poll n j t old ft s2 = Some (fl, s3)" by (simp add: body_def)
        from wait_outcome_trans [OF o2 wsc_poll_result [OF this]] show ?thesis .
      qed
    qed
    show ?thesis
    proof (cases fl)
      case Break
      with o3 have o: "only_old old s s3" by (simp add: wait_outcome_def)
      from Suc.prems d True b Break have "wsc_outer n j t old ft s3 = Some (r, s')"
        by (simp add: body_def [symmetric])
      from wait_outcome_trans [OF o Suc.IH [OF this]] show ?thesis .
    next
      case (Return v)
      with Suc.prems d True b have "r = Inr v" "s' = s3" by (simp_all add: body_def [symmetric])
      with o3 Return show ?thesis by simp
    next
      case (Raise e)
      with o3 have o: "only_old old s s3" by (simp add: wait_outcome_def)
      show ?thesis
      proof (cases "e = OSError \<or> e = ProtocolTimeoutError")
        case False
        with Suc.prems d True b Raise have "r = Inl e" "s' = s3"
          by (simp_all add: body_def [symmetric])
        with o show ?thesis by (simp add: wait_outcome_def)
      next
        case handled: True
        obtain x4 s4 where rc: "wsc_recover j t ft s3 = (x4, s4)"
          by (cases "wsc_recover j t ft s3")
        from wsc_recover_polled [OF rc] o have o4: "only_old old s s4"
          by (blast intro: only_old_trans only_old_refl)
        show ?thesis
        proof (cases x4)
          case (Inl e')
          with Suc.prems d True b Raise handled rc have "r = Inl e'" "s' = s4"
            by (simp_all add: body_def [symmetric])
          with o4 show ?thesis by (simp add: wait_outcome_def)
        next
          case (Inr u)
          with Suc.prems d True b Raise handled rc
          have "wsc_outer n j t old ft s4 = Some (r, s')"
            by (simp add: body_def [symmetric])
          from wait_outcome_trans [OF o4 Suc.IH [OF this]] show ?thesis .
        qed
      qed
    qed
  qed
qed

lemma wait_for_state_change_seen:
  assumes "wait_for_state_change fuel j t old_state timeout s = Some (r, s')"
  shows "\<exists>k. (case r of
            Inr v \<Rightarrow>
              if v = old_state
              then map st_state (polled s') = map st_state (polled s) @ replicate k old_state \<and>
                   (\<exists>T. timeout = Some T \<and> fst (time_time s) + T \<le> now s')
              else map st_state (polled s') =
                     map st_state (polled s) @ replicate k old_state @ [v]
          | Inl e \<Rightarrow>
              map st_state (polled s') = map st_state (polled s) @ replicate k old_state)"
proof -
  obtain ft s0 where f: "finish_time_of timeout s = (ft, s0)"
    by (cases "finish_time_of timeout s")
  then have p0: "polled s0 = polled s"
    and ft: "ft = (case timeout of None \<Rightarrow> None | Some T \<Rightarrow> Some (fst (time_time s) + T))"
    by (auto simp: finish_time_of_def split: option.splits prod.splits dest!: time_time_frame)
  from assms f have "wsc_outer fuel j t old_state ft s0 = Some (r, s')"
    by (simp add: wait_for_state_change_def)
  from wsc_outer_result [OF this] p0 ft show ?thesis
    by (cases r)
       (auto simp: wait_outcome_def only_old_def then_new_def polled_states_def
             split: option.splits if_splits)
qed

text \<open>
  What a wait that has ended has seen. Every state it polled but the last
  equals \<open>old_state\<close>. It returns a state \<open>v\<close> that differs from \<open>old_state\<close> exactly
  when the last poll gave \<open>v\<close>, so that nothing is polled after the first state that
  differs; it returns \<open>old_state\<close>, a normal result, only when the timeout is finite and
  the clock has reached the deadline, with no poll that differed; and when it ends
  with an exception no poll differed. When the deadline has passed at the first loop
  test it returns \<open>old_state\<close> at once.
\<close>

lemma wait_for_state_change_polls:
  "(wait_for_state_change fuel j t old_state timeout s = Some (r, s') \<longrightarrow>
      (\<exists>k. (case r of
            Inr v \<Rightarrow>
              if v = old_state
              then map st_state (polled s') = map st_state (polled s) @ replicate k old_state \<and>
                   (\<exists>T. timeout = Some T \<and> fst (time_time s) + T \<le> now s')
              else map st_state (polled s') =
                     map st_state (polled s) @ replicate k old_state @ [v]
          | Inl e \<Rightarrow>
              map st_state (polled s') = map st_state (polled s) @ replicate k old_state))) \<and>
   (timeout = Some T \<and> time_time s = (n0, s0) \<and> time_time s0 = (n1, s1) \<and> n0 + T \<le> n1 \<longrightarrow>
      wait_for_state_change (Suc fuel) j t old_state timeout s = Some (Inr old_state, s1))"
proof (intro conjI impI)
  assume "wait_for_state_change fuel j t old_state timeout s = Some (r, s')"
  from wait_for_state_change_seen [OF this]
  show "\<exists>k. (case r of
            Inr v \<Rightarrow>
              if v = old_state
              then map st_state (polled s') = map st_state (polled s) @ replicate k old_state \<and>
                   (\<exists>T. timeout = Some T \<and> fst (time_time s) + T \<le> now s')
              else map st_state (polled s') =
                     map st_state (polled s) @ replicate k old_state @ [v]
          | Inl e \<Rightarrow>
              map st_state (polled s') = map st_state (polled s) @ replicate k old_state)" .
next
  assume "timeout = Some T \<and> time_time s = (n0, s0) \<and> time_time s0 = (n1, s1) \<and> n0 + T \<le> n1"
  then show "wait_for_state_change (Suc fuel) j t old_state timeout s = Some (Inr old_state, s1)"
    by (simp add: wait_for_state_change_def finish_time_of_def deadline_open_def)
qed

lemmas example_job_eval =
  example_eval wait_for_state_change_def finish_time_of_def deadline_open_def notify_job_def
  get_state_def get_job_state_def job_keepalive_def wait_timeout_def example_job_def
  example_JobState_def

definition example_wait :: pc where
  "example_wait =
     connected_client []
        [RecvData (''Rok'' @ [newline]), RecvData (''S1'' @ [newline]),
         RecvData (''Rok'' @ [newline]), RecvData (''Nx'' @ [newline]),
         RecvData (''S3'' @ [newline])]"

definition example_wait_done :: pc where
  "example_wait_done =
     example_wait
       \<lparr>local_buffer := [0 \<mapsto> []], recvs := [],
        sent := [(0, ''C'' @ [newline]), (0, ''C'' @ [newline]), (0, ''C'' @ [newline]),
                 (0, ''C'' @ [newline])],
        polled := [\<lparr>st_state = Queued, st_power = JNull, st_keepalive = JNull,
                    st_reason = JStr []\<rparr>,
                   \<lparr>st_state = Ready, st_power = JNull, st_keepalive = JNull,
                    st_reason = JStr []\<rparr>]\<rparr>"

lemma example_wait_result:
  "wait_for_state_change (Suc (Suc (Suc 0))) example_job 0 Queued (Some 100) example_wait =
     Some (Inr Ready, example_wait_done)"
  by (simp add: example_wait_done_def example_wait_def example_job_eval)

lemma wait_for_state_change_polls_example:
  "wait_for_state_change (Suc (Suc (Suc 0))) example_job 0 Queued (Some 100) example_wait =
     Some (Inr Ready, example_wait_done) \<and>
   map st_state (polled example_wait) = [] \<and>
   (\<exists>k. map st_state (polled example_wait_done) = replicate k Queued @ [Ready]) \<and>
   time_time example_wait = (0, example_wait) \<and>
   wait_for_state_change (Suc 0) example_job 0 Queued (Some 0) example_wait =
     Some (Inr Queued, example_wait)"
proof -
  note r = example_wait_result
  have p: "polled example_wait = []"
    and t: "time_time example_wait = (0, example_wait)"
    by (simp_all add: example_wait_def connected_client_eq time_time_def)
  from wait_for_state_change_polls [of "Suc (Suc (Suc 0))" example_job 0 Queued "Some 100"
      example_wait "Inr Ready" example_wait_done 0 0 example_wait 0 example_wait] r
  have "\<exists>k. map st_state (polled example_wait_done) = replicate k Queued @ [Ready]"
    by (simp add: p)
  moreover
  from wait_for_state_change_polls [of 0 example_job 0 Queued "Some 0"
      example_wait "Inr Queued" example_wait 0 0 example_wait 0 example_wait] t
  have "wait_for_state_change (Suc 0) example_job 0 Queued (Some 0) example_wait =
     Some (Inr Queued, example_wait)"
    by simp
  ultimately show ?thesis using r t p by simp
qed

subsection \<open>After a communication failure\<close>

text \<open>\<^verbatim>\<open>close()\<close> replaces the thread-local object, so \<^verbatim>\<open>connect()\<close> on a closed
  client finds no attribute \<^verbatim>\<open>sock\<close>; and the handler of the outer loop of
  \<^verbatim>\<open>wait_for_state_change\<close> closes the client before it reconnects.\<close>

lemma connect_after_close: "connect t timeout (close t' s) = (Inl AttributeError, close t' s)"
  by (simp add: connect_def close_def Let_def)

lemma wsc_recover_raises: "fst (wsc_recover j t ft s) = Inl AttributeError"
proof -
  have c: "local_sock (close t s) t = None" by (simp add: close_def Let_def)
  have r: "fst (reconnect j t u) = Inl AttributeError" if "local_sock u t = None" for u
    using that by (simp add: reconnect_def connect_def)
  obtain n x2 where tt: "time_time (close t s) = (n, x2)" by (cases "time_time (close t s)")
  then have "local_sock x2 = local_sock (close t s)"
    by (auto simp: time_time_def split: list.splits)
  with c have "local_sock (time_sleep d x2) t = None" for d by (simp add: time_sleep_def)
  note a = r [OF this]
  from c have "local_sock (time_sleep d (close t s)) t = None" for d by (simp add: time_sleep_def)
  note b = r [OF this]
  show ?thesis
    by (cases ft) (simp_all add: wsc_recover_def Let_def tt a b)
qed

text \<open>A connected client whose next receive fails.\<close>

definition example_failing :: pc where
  "example_failing = connected_client [] [RecvError]"

lemma example_failing_wait:
  "wait_for_state_change (Suc 0) example_job 0 Queued (Some 100) example_failing =
     Some (Inl AttributeError,
           (close 0 (example_failing\<lparr>recvs := [], sent := [(0, ''C'' @ [newline])]\<rparr>))
             \<lparr>now := 5\<rparr>)"
  by (simp add: example_failing_def example_job_eval wsc_recover_def reconnect_def
        connect_def time_sleep_def close_def close_one_def sock_close_def)

text \<open>
  C6. A wait does not outlast a communication failure. \<^verbatim>\<open>connect()\<close> on a closed client
  raises \<^verbatim>\<open>AttributeError\<close>, so the handler of the outer loop, which closes the client,
  sleeps and reconnects, always ends with that exception, which \<^verbatim>\<open>_reconnect\<close> does
  not catch. With a timeout of 100 seconds and a receive that fails, the wait for a
  change from \<open>Queued\<close> ends with \<^verbatim>\<open>AttributeError\<close> when the clock reads 5, having
  polled no state: it neither returns \<open>old_state\<close> at the deadline nor goes on waiting
  for a new state.
\<close>

theorem wait_for_state_change_raises_after_failure:
  "connect t timeout (close t' s) = (Inl AttributeError, close t' s) \<and>
   fst (wsc_recover j t ft s) = Inl AttributeError \<and>
   map_option fst (wait_for_state_change (Suc 0) example_job 0 Queued (Some 100) example_failing) =
     Some (Inl AttributeError) \<and>
   map_option (polled \<circ> snd)
     (wait_for_state_change (Suc 0) example_job 0 Queued (Some 100) example_failing) = Some [] \<and>
   map_option (now \<circ> snd)
     (wait_for_state_change (Suc 0) example_job 0 Queued (Some 100) example_failing) = Some 5"
proof -
  from example_failing_wait
  have "map_option fst
       (wait_for_state_change (Suc 0) example_job 0 Queued (Some 100) example_failing) =
     Some (Inl AttributeError) \<and>
   map_option (polled \<circ> snd)
     (wait_for_state_change (Suc 0) example_job 0 Queued (Some 100) example_failing) = Some [] \<and>
   map_option (now \<circ> snd)
     (wait_for_state_change (Suc 0) example_job 0 Queued (Some 100) example_failing) = Some 5"
    by (simp add: close_polled example_failing_def connected_client_eq)
  with connect_after_close [of t timeout t' s] wsc_recover_raises [of j t ft s]
  show ?thesis by (intro conjI) simp_all
qed

text \<open>
  C8. On a client that has been closed \<^verbatim>\<open>destroy\<close> raises: the connection handed out
  is \<^verbatim>\<open>None\<close>, the \<^verbatim>\<open>destroy_job\<close> request fails with \<^verbatim>\<open>AttributeError\<close>, the handler
  catches \<^verbatim>\<open>OSError\<close> and \<^verbatim>\<open>ProtocolTimeoutError\<close> only, and the final \<^verbatim>\<open>close()\<close> is not
  reached. A closed client is what a communication failure during
  \<^verbatim>\<open>wait_for_state_change\<close> leaves behind: after the failed wait above, \<^verbatim>\<open>destroy\<close>
  raises \<^verbatim>\<open>AttributeError\<close>, the stop event set and the thread joined, the client
  unchanged.
\<close>

theorem destroy_raises_on_closed_client:
  "fst (destroy j t reason (close t' s)) =
     (if keepalive_thread j = NotStarted then Inl RuntimeError else Inl AttributeError) \<and>
   fst (destroy example_job 0 JNull (close 0 (connected_client [] []))) = Inl AttributeError \<and>
   (case wait_for_state_change (Suc 0) example_job 0 Queued (Some 100) example_failing of
      None \<Rightarrow> False
    | Some (r, s1) \<Rightarrow>
        r = Inl AttributeError \<and> dead s1 \<and>
        destroy example_job 0 JNull s1 =
          (Inl AttributeError, example_job\<lparr>stop_set := True, keepalive_thread := Finished\<rparr>, s1))"
proof -
  have d: "dead (close t' s)" by (simp add: close_frame)
  have g: "fst (destroy j t reason u) =
     (if keepalive_thread j = NotStarted then Inl RuntimeError else Inl AttributeError)"
    if "dead u" for u
    using that
    by (simp add: destroy_def destroy_job_def call_def send_json_def get_connection_dead Let_def)
  note w = example_failing_wait
  have e: "destroy example_job 0 JNull u =
          (Inl AttributeError, example_job\<lparr>stop_set := True, keepalive_thread := Finished\<rparr>, u)"
    if "dead u" for u
    using that
    by (simp add: destroy_def destroy_job_def call_def send_json_def get_connection_dead Let_def
          example_job_def)
  have dd: "dead ((close 0 (example_failing\<lparr>recvs := [], sent := [(0, ''C'' @ [newline])]\<rparr>))
                  \<lparr>now := 5\<rparr>)"
    by (simp add: close_frame)
  have d0: "dead (close 0 (connected_client [] []))" by (simp add: close_frame)
  from g [OF d] e [OF d0] e [OF dd] dd w show ?thesis by simp
qed

subsection \<open>Waiting until the job is ready\<close>

























































end
